theory Spec2Isabelle
  imports Main "HOL-Library.Word" "HOL-Library.Multiset" "HOL-Library.Sublist"
begin

unbundle bit_operations_syntax

section \<open>Images\<close>

text \<open>
  An image is a numpy array of shape \<open>(H, W, C)\<close> with \<open>uint8\<close> entries: a list of
  \<open>H\<close> rows of \<open>W\<close> pixels. A decoded colour image has three channels in the order blue,
  green, red; the result has a fourth channel, alpha.
\<close>

type_synonym u8 = "8 word"
type_synonym 'a grid = "'a list list"
type_synonym pixel_bgr = "u8 \<times> u8 \<times> u8"
type_synonym pixel_bgra = "u8 \<times> u8 \<times> u8 \<times> u8"

text \<open>The exceptions of the program, each with the text \<open>str(e)\<close> gives.\<close>

datatype exn = ValueError string | OSError string | CvError string

fun str_exn :: "exn \<Rightarrow> string" where
  "str_exn (ValueError m) = m"
| "str_exn (OSError m) = m"
| "str_exn (CvError m) = m"

text \<open>\<open>bgr.size\<close>: the number of entries of an array of shape \<open>(H, W, 3)\<close>.\<close>

definition np_size :: "pixel_bgr grid \<Rightarrow> nat" where
  "np_size bgr = length bgr * (case bgr of [] \<Rightarrow> 0 | r # _ \<Rightarrow> length r) * 3"

text \<open>The channel planes of an image.\<close>

definition alpha_channel :: "pixel_bgra grid \<Rightarrow> u8 grid" where
  "alpha_channel bgra = map (map (\<lambda>(b, g, r, a). a)) bgra"

definition color_channels :: "pixel_bgra grid \<Rightarrow> pixel_bgr grid" where
  "color_channels bgra = map (map (\<lambda>(b, g, r, a). (b, g, r))) bgra"

section \<open>The OpenCV and numpy operations the program calls\<close>

text \<open>\<open>cv2.cvtColor(bgr, cv2.COLOR_BGR2BGRA)\<close> adds an opaque alpha channel.\<close>

definition cvtColor_BGR2BGRA :: "pixel_bgr grid \<Rightarrow> pixel_bgra grid" where
  "cvtColor_BGR2BGRA bgr = map (map (\<lambda>(b, g, r). (b, g, r, 255))) bgr"

text \<open>
  \<open>(bgr[:,:,0] <= threshold) & (bgr[:,:,1] <= threshold) & (bgr[:,:,2] <= threshold)\<close>:
  \<open>threshold\<close> is a Python integer of any size, compared with the value of each byte.
\<close>

definition black_mask :: "pixel_bgr grid \<Rightarrow> int \<Rightarrow> bool grid" where
  "black_mask bgr threshold =
     map (map (\<lambda>(b, g, r). uint b \<le> threshold \<and> uint g \<le> threshold \<and> uint r \<le> threshold)) bgr"

text \<open>\<open>black_mask.astype(np.uint8) * 255\<close>\<close>

definition astype_uint8_times_255 :: "bool grid \<Rightarrow> u8 grid" where
  "astype_uint8_times_255 m = map (map (\<lambda>v. (if v then 1 else 0) * 255)) m"

text \<open>
  \<open>cv2.dilate(mask, np.ones((3,3), np.uint8), iterations=n)\<close>: every pass replaces a pixel by
  the maximum over its 3x3 neighbourhood, anchored at the centre. OpenCV's default border
  for a dilation contributes nothing to the maximum, so only neighbours inside the image
  count.
\<close>

definition px :: "u8 grid \<Rightarrow> int \<Rightarrow> int \<Rightarrow> u8 list" where
  "px m y x =
     (if 0 \<le> y \<and> y < int (length m) \<and> 0 \<le> x \<and> x < int (length (m ! nat y))
      then [m ! nat y ! nat x] else [])"

definition neighbours3x3 :: "u8 grid \<Rightarrow> nat \<Rightarrow> nat \<Rightarrow> u8 list" where
  "neighbours3x3 m y x =
     concat (map (\<lambda>dy. concat (map (\<lambda>dx. px m (int y + dy) (int x + dx)) [-1, 0, 1])) [-1, 0, 1])"

definition dilate3x3 :: "u8 grid \<Rightarrow> u8 grid" where
  "dilate3x3 m =
     map (\<lambda>y. map (\<lambda>x. fold max (neighbours3x3 m y x) (m ! y ! x)) [0..<length (m ! y)])
       [0..<length m]"

definition dilate_times :: "u8 grid \<Rightarrow> nat \<Rightarrow> u8 grid" where
  "dilate_times m n = (dilate3x3 ^^ n) m"

text \<open>
  The arguments of the OpenCV calls are C integers of 32 bits: a Python integer that does
  not fit makes the call raise \<open>cv2.error\<close>. Running out of memory is not modelled.
\<close>

definition fits_c_int :: "int \<Rightarrow> bool" where
  "fits_c_int i = (- (2 ^ 31) \<le> i \<and> i \<le> 2 ^ 31 - 1)"

definition cv2_dilate :: "u8 grid \<Rightarrow> int \<Rightarrow> exn + u8 grid" where
  "cv2_dilate m iterations =
     (if \<not> fits_c_int iterations then Inl (CvError ''iterations does not fit a C int'')
      else Inr (dilate_times m (nat iterations)))"

text \<open>\<open>cv2.bitwise_not\<close>\<close>

definition bitwise_not :: "u8 grid \<Rightarrow> u8 grid" where
  "bitwise_not m = map (map (\<lambda>v. NOT v)) m"

text \<open>
  \<open>cv2.GaussianBlur(alpha, (k, k), 0)\<close> is computed by OpenCV in fixed or floating point.
  Its arithmetic is left open: the parameter \<open>g\<close> gives the blurred value at row \<open>y\<close>,
  column \<open>x\<close> of the plane, for kernel size \<open>k\<close>. The result has the size of its input.
\<close>

type_synonym gauss = "int \<Rightarrow> u8 grid \<Rightarrow> nat \<Rightarrow> nat \<Rightarrow> u8"

definition blur_plane :: "gauss \<Rightarrow> u8 grid \<Rightarrow> int \<Rightarrow> u8 grid" where
  "blur_plane g a k =
     map (\<lambda>y. map (\<lambda>x. g k a y x) [0..<length (a ! y)]) [0..<length a]"

text \<open>The call itself, made only with a positive odd \<open>k\<close>; it raises when \<open>k\<close> does not fit.\<close>

definition cv2_GaussianBlur :: "gauss \<Rightarrow> u8 grid \<Rightarrow> int \<Rightarrow> exn + u8 grid" where
  "cv2_GaussianBlur g a k =
     (if \<not> fits_c_int k then Inl (CvError ''ksize does not fit a C int'')
      else Inr (blur_plane g a k))"

text \<open>\<open>bgra[:,:,3] = alpha\<close>\<close>

definition set_alpha :: "pixel_bgra grid \<Rightarrow> u8 grid \<Rightarrow> pixel_bgra grid" where
  "set_alpha bgra alpha =
     map2 (\<lambda>row arow. map2 (\<lambda>(b, g, r, _) a. (b, g, r, a)) row arow) bgra alpha"

section \<open>The pixel masker\<close>

definition remove_black_background_array ::
  "gauss \<Rightarrow> pixel_bgr grid option \<Rightarrow> int \<Rightarrow> int \<Rightarrow> int \<Rightarrow> exn + pixel_bgra grid" where
  "remove_black_background_array g bgr threshold feather dilate =
     (case bgr of
        None \<Rightarrow> Inl (ValueError ''Empty image provided'')
      | Some img \<Rightarrow>
          if np_size img = 0 then Inl (ValueError ''Empty image provided'')
          else
            let bgra = cvtColor_BGR2BGRA img;
                mask = astype_uint8_times_255 (black_mask img threshold)
            in (case (if dilate > 0 then cv2_dilate mask dilate else Inr mask) of
                  Inl e \<Rightarrow> Inl e
                | Inr mask \<Rightarrow>
                    let alpha = bitwise_not mask
                    in (case (if feather \<noteq> 0 \<and> feather > 0 \<and> feather mod 2 = 1
                              then cv2_GaussianBlur g alpha feather else Inr alpha) of
                          Inl e \<Rightarrow> Inl e
                        | Inr alpha \<Rightarrow> Inr (set_alpha bgra alpha))))"

section \<open>Properties of alpha planes\<close>

text \<open>A plane is binary when it holds only the values 0 and 255.\<close>

definition binary :: "u8 grid \<Rightarrow> bool" where
  "binary m = (\<forall>row \<in> set m. \<forall>v \<in> set row. v = 0 \<or> v = 255)"

text \<open>The pointwise order on planes of the same shape.\<close>

definition grid_le :: "u8 grid \<Rightarrow> u8 grid \<Rightarrow> bool" where
  "grid_le a b = list_all2 (list_all2 (\<le>)) a b"

text \<open>
  The alpha plane before feathering: the inverted, possibly dilated mask
  (\<open>0\<close> where background, \<open>255\<close> elsewhere).
\<close>

definition inverted_mask :: "pixel_bgr grid \<Rightarrow> int \<Rightarrow> int \<Rightarrow> u8 grid" where
  "inverted_mask bgr threshold dilate =
     (let mask = astype_uint8_times_255 (black_mask bgr threshold);
          mask = (if dilate > 0 then dilate_times mask (nat dilate) else mask)
      in bitwise_not mask)"

text \<open>The OpenCV calls the masker makes for \<open>feather\<close> and \<open>dilate\<close> take their arguments.\<close>

definition cv2_accepts :: "int \<Rightarrow> int \<Rightarrow> bool" where
  "cv2_accepts feather dilate =
     ((0 < dilate \<longrightarrow> fits_c_int dilate) \<and> (0 < feather \<and> odd feather \<longrightarrow> fits_c_int feather))"

text \<open>
  A blur is monotone when a pointwise larger plane gives a pointwise larger result, as a
  weighted average with non-negative weights and a monotone rounding does.
\<close>

definition gauss_monotone :: "gauss \<Rightarrow> int \<Rightarrow> bool" where
  "gauss_monotone g k =
     (\<forall>a b. grid_le a b \<longrightarrow> grid_le (blur_plane g a k) (blur_plane g b k))"

text \<open>The positions \<open>(row, column)\<close> of the fully transparent pixels of a result.\<close>

definition transparent :: "pixel_bgra grid \<Rightarrow> (nat \<times> nat) list" where
  "transparent bgra =
     (let a = alpha_channel bgra
      in concat (map (\<lambda>y. map (\<lambda>x. (y, x)) (filter (\<lambda>x. a ! y ! x = 0) [0..<length (a ! y)]))
           [0..<length a]))"

section \<open>Path names\<close>

text \<open>
  The program computes its paths with \<open>os.path\<close>, here the POSIX flavour
  (\<open>posixpath\<close> and \<open>genericpath\<close> of the standard library). A path is a string; the
  separator is \<open>/\<close>.
\<close>

definition sep :: char where
  "sep = CHR ''/''"

text \<open>\<open>p.rfind(c)\<close>: the index of the last occurrence of \<open>c\<close>, or \<open>-1\<close>.\<close>

definition rfind :: "string \<Rightarrow> char \<Rightarrow> int" where
  "rfind p c =
     (if c \<in> set p then int (length p) - 1 - int (length (takeWhile (\<lambda>d. d \<noteq> c) (rev p)))
      else - 1)"

text \<open>\<open>s.rstrip(c)\<close> for a single character \<open>c\<close>\<close>

definition rstrip :: "string \<Rightarrow> char \<Rightarrow> string" where
  "rstrip s c = rev (dropWhile (\<lambda>d. d = c) (rev s))"

text \<open>\<open>s.split(c)\<close>: the pieces between the occurrences of \<open>c\<close>; never the empty list.\<close>

fun str_split :: "string \<Rightarrow> char \<Rightarrow> string list" where
  "str_split [] c = [[]]"
| "str_split (x # xs) c =
     (if x = c then [] # str_split xs c
      else (case str_split xs c of [] \<Rightarrow> [[x]] | w # ws \<Rightarrow> (x # w) # ws))"

text \<open>\<open>s.join(xs)\<close>\<close>

fun str_join :: "string \<Rightarrow> string list \<Rightarrow> string" where
  "str_join s [] = []"
| "str_join s [x] = x"
| "str_join s (x # y # ys) = x @ s @ str_join s (y # ys)"

text \<open>\<open>s.lower()\<close> on ASCII letters; every other character is kept.\<close>

definition lower_char :: "char \<Rightarrow> char" where
  "lower_char c =
     (let n = (of_char c :: nat) in if 65 \<le> n \<and> n \<le> 90 then char_of (n + 32) else c)"

definition str_lower :: "string \<Rightarrow> string" where
  "str_lower s = map lower_char s"

text \<open>\<open>os.path.basename\<close>\<close>

definition basename :: "string \<Rightarrow> string" where
  "basename p = (let i = rfind p sep + 1 in drop (nat i) p)"

text \<open>\<open>os.path.dirname\<close>\<close>

definition dirname :: "string \<Rightarrow> string" where
  "dirname p =
     (let i = rfind p sep + 1;
          head = take (nat i) p
      in if head \<noteq> [] \<and> head \<noteq> replicate (length head) sep then rstrip head sep else head)"

text \<open>
  \<open>os.path.splitext\<close>: the extension starts at the last dot of the last component, unless
  that component has only dots before it.
\<close>

definition splitext :: "string \<Rightarrow> string \<times> string" where
  "splitext p =
     (let sepIndex = rfind p sep;
          dotIndex = rfind p (CHR ''.'')
      in if dotIndex > sepIndex \<and>
            list_ex (\<lambda>filenameIndex. p ! filenameIndex \<noteq> CHR ''.'')
              [nat (sepIndex + 1)..<nat dotIndex]
         then (take (nat dotIndex) p, drop (nat dotIndex) p)
         else (p, []))"

text \<open>\<open>os.path.isabs\<close>\<close>

definition isabs :: "string \<Rightarrow> bool" where
  "isabs s = prefix [sep] s"

text \<open>\<open>os.path.join(a, b)\<close>, and \<open>os.path.join(*parts)\<close> for a non-empty list of parts.\<close>

definition join :: "string \<Rightarrow> string \<Rightarrow> string" where
  "join path b =
     (if prefix [sep] b then b
      else if path = [] \<or> suffix [sep] path then path @ b
      else path @ [sep] @ b)"

definition join_list :: "string list \<Rightarrow> string" where
  "join_list parts = foldl join (hd parts) (tl parts)"

text \<open>\<open>os.path.normpath\<close>: one pass over the components, with the list \<open>new_comps\<close>.\<close>

definition normpath_step :: "nat \<Rightarrow> string list \<Rightarrow> string \<Rightarrow> string list" where
  "normpath_step initial_slashes new_comps cmp =
     (if cmp = [] \<or> cmp = ''.'' then new_comps
      else if cmp \<noteq> ''..'' \<or> (initial_slashes = 0 \<and> new_comps = []) \<or>
              (new_comps \<noteq> [] \<and> last new_comps = ''..'')
      then new_comps @ [cmp]
      else if new_comps \<noteq> [] then butlast new_comps
      else new_comps)"

definition normpath :: "string \<Rightarrow> string" where
  "normpath path =
     (if path = [] then ''.''
      else
        let initial_slashes =
              (if prefix [sep] path
               then (if prefix [sep, sep] path \<and> \<not> prefix [sep, sep, sep] path then 2 else 1)
               else (0::nat));
            comps = str_split path sep;
            new_comps = foldl (normpath_step initial_slashes) [] comps;
            path = str_join [sep] new_comps;
            path = (if initial_slashes \<noteq> 0 then replicate initial_slashes sep @ path else path)
        in if path = [] then ''.'' else path)"

text \<open>\<open>os.path.abspath\<close>, with the current directory \<open>cwd\<close> of the process.\<close>

definition abspath :: "string \<Rightarrow> string \<Rightarrow> string" where
  "abspath cwd path = normpath (if \<not> isabs path then join cwd path else path)"

text \<open>
  \<open>genericpath.commonprefix\<close> of two lists of components: their longest common prefix.
\<close>

fun commonprefix :: "string list \<Rightarrow> string list \<Rightarrow> string list" where
  "commonprefix (x # xs) (y # ys) = (if x = y then x # commonprefix xs ys else [])"
| "commonprefix _ _ = []"

text \<open>\<open>os.path.relpath(path, start)\<close>; it raises \<open>ValueError\<close> on an empty path.\<close>

definition relpath :: "string \<Rightarrow> string \<Rightarrow> string \<Rightarrow> exn + string" where
  "relpath cwd path start =
     (if path = [] then Inl (ValueError ''no path specified'')
      else
        let start_list = filter (\<lambda>x. x \<noteq> []) (str_split (abspath cwd start) sep);
            path_list = filter (\<lambda>x. x \<noteq> []) (str_split (abspath cwd path) sep);
            i = length (commonprefix start_list path_list);
            rel_list = replicate (length start_list - i) ''..'' @ drop i path_list
        in if rel_list = [] then Inr ''.'' else Inr (join_list rel_list))"

section \<open>Properties of path names\<close>

text \<open>A directory as \<open>join\<close> prefixes it to a relative name: with its separator.\<close>

definition addsep :: "string \<Rightarrow> string" where
  "addsep t = (if t = [] \<or> last t = sep then t else t @ [sep])"

text \<open>A component: non-empty and without a separator.\<close>

definition component :: "string \<Rightarrow> bool" where
  "component x = (x \<noteq> [] \<and> sep \<notin> set x)"

text \<open>A clean component is neither \<open>.\<close> nor \<open>..\<close>: the name of a file or directory.\<close>

definition clean :: "string \<Rightarrow> bool" where
  "clean x = (component x \<and> x \<noteq> ''.'' \<and> x \<noteq> ''..'')"

section \<open>The file processor\<close>

text \<open>
  What the program does not compute itself is given by the environment: the current
  directory, the directory tree as \<open>os.walk\<close> lists it, whether \<open>os.makedirs\<close> raises,
  what \<open>cv2.imread\<close> decodes (\<open>None\<close> when the file is unreadable), what \<open>cv2.imwrite\<close>
  answers or raises, and the blur of \<open>cv2.GaussianBlur\<close>.
\<close>

record env =
  getcwd :: string
  isdir :: "string \<Rightarrow> bool"
  walk :: "string \<Rightarrow> (string \<times> string list \<times> string list) list"
  makedirs :: "string \<Rightarrow> exn option"
  imread :: "string \<Rightarrow> pixel_bgr grid option"
  imwrite :: "string \<Rightarrow> pixel_bgra grid \<Rightarrow> exn + bool"
  GaussianBlur :: gauss

text \<open>The calls with an effect outside the process, in the order they are made.\<close>

datatype effect =
  Makedirs string
| Imwrite string "pixel_bgra grid"
| Print string
| PrintErr string

text \<open>
  Lines 60 and 61 of \<open>process_one\<close>: the directory the output goes to. \<open>args_input\<close> is
  the global \<open>args.input\<close>; \<open>relpath\<close> is only called when the structure is kept.
\<close>

definition target_dir_of :: "string \<Rightarrow> string \<Rightarrow> string \<Rightarrow> string \<Rightarrow> bool \<Rightarrow> exn + string" where
  "target_dir_of cwd args_input in_path out_dir keep_structure =
     (case (if keep_structure then relpath cwd (dirname in_path) args_input else Inr []) of
        Inl e \<Rightarrow> Inl e
      | Inr rel_dir \<Rightarrow> Inr (join out_dir rel_dir))"

text \<open>Lines 63 and 64: the output file, always with the extension \<open>.png\<close>.\<close>

definition out_path_of :: "string \<Rightarrow> string \<Rightarrow> string" where
  "out_path_of target_dir in_path =
     (let stem = fst (splitext (basename in_path))
      in join target_dir (stem @ ''.png''))"

text \<open>
  \<open>process_one\<close> returns its outcome string, or propagates an exception (\<open>Inl\<close>): only the
  masking and the write stand inside its \<open>try\<close>.
\<close>

definition process_one ::
  "env \<Rightarrow> string \<Rightarrow> string \<Rightarrow> string \<Rightarrow> int \<Rightarrow> int \<Rightarrow> int \<Rightarrow> bool \<Rightarrow> effect list \<times> (exn + string)" where
  "process_one w args_input in_path out_dir threshold feather dilate_iters keep_structure =
     (case target_dir_of (getcwd w) args_input in_path out_dir keep_structure of
        Inl e \<Rightarrow> ([], Inl e)
      | Inr target_dir \<Rightarrow>
          (case makedirs w target_dir of
             Some e \<Rightarrow> ([Makedirs target_dir], Inl e)
           | None \<Rightarrow>
               let out_path = out_path_of target_dir in_path
               in (case imread w in_path of
                     None \<Rightarrow> ([Makedirs target_dir], Inr (''SKIP (unreadable): '' @ in_path))
                   | Some bgr \<Rightarrow>
                       (case remove_black_background_array (GaussianBlur w) (Some bgr)
                               threshold feather dilate_iters of
                          Inl e \<Rightarrow>
                            ([Makedirs target_dir],
                             Inr (''ERROR ('' @ in_path @ ''): '' @ str_exn e))
                        | Inr bgra \<Rightarrow>
                            (case imwrite w out_path bgra of
                               Inl e \<Rightarrow>
                                 ([Makedirs target_dir, Imwrite out_path bgra],
                                  Inr (''ERROR ('' @ in_path @ ''): '' @ str_exn e))
                             | Inr ok \<Rightarrow>
                                 ([Makedirs target_dir, Imwrite out_path bgra],
                                  Inr (if \<not> ok then ''ERROR (write failed): '' @ out_path
                                       else ''OK: '' @ out_path)))))))"

text \<open>The output path \<open>process_one\<close> computes for an input, when \<open>relpath\<close> does not raise.\<close>

definition output_path :: "string \<Rightarrow> string \<Rightarrow> string \<Rightarrow> string \<Rightarrow> bool \<Rightarrow> exn + string" where
  "output_path cwd args_input in_path out_dir keep_structure =
     (case target_dir_of cwd args_input in_path out_dir keep_structure of
        Inl e \<Rightarrow> Inl e
      | Inr target_dir \<Rightarrow> Inr (out_path_of target_dir in_path))"

section \<open>The batch driver\<close>

definition IMAGE_EXTS :: "string list" where
  "IMAGE_EXTS = [''.jpg'', ''.jpeg'', ''.png'', ''.bmp'', ''.tif'', ''.tiff'', ''.webp'']"

definition list_images :: "env \<Rightarrow> string \<Rightarrow> string list" where
  "list_images w root =
     concat (map (\<lambda>(dirpath, dirnames, filenames).
         map (\<lambda>fn. join dirpath fn)
           (filter (\<lambda>fn. str_lower (snd (splitext fn)) \<in> set IMAGE_EXTS) filenames))
       (walk w root))"

record args =
  args_input :: string
  args_output :: string
  args_threshold :: int
  args_feather :: int
  args_dilate :: int
  args_workers :: int
  args_keep_structure :: bool

text \<open>\<open>str(n)\<close> for a count\<close>

fun str_nat :: "nat \<Rightarrow> string" where
  "str_nat n =
     (if n < 10 then [char_of (48 + n)] else str_nat (n div 10) @ [char_of (48 + n mod 10)])"

declare str_nat.simps [simp del]

text \<open>Lines 121 to 123: the three counters of the summary.\<close>


definition summary :: "string list \<Rightarrow> nat \<times> nat \<times> nat" where
  "summary results =
     (length (filter (\<lambda>r. prefix ''OK'' r) results),
      length (filter (\<lambda>r. prefix ''ERROR'' r) results),
      length (filter (\<lambda>r. prefix ''SKIP'' r) results))"

text \<open>An outcome string carries exactly one of the three prefixes the summary counts.\<close>

definition one_prefix :: "string \<Rightarrow> bool" where
  "one_prefix r =
     ((prefix ''OK'' r \<and> \<not> prefix ''ERROR'' r \<and> \<not> prefix ''SKIP'' r) \<or>
      (prefix ''ERROR'' r \<and> \<not> prefix ''OK'' r \<and> \<not> prefix ''SKIP'' r) \<or>
      (prefix ''SKIP'' r \<and> \<not> prefix ''OK'' r \<and> \<not> prefix ''ERROR'' r))"

text \<open>
  \<open>fut.result()\<close> gives the outcome of a call or raises what the call raised; the first
  exception met ends the collection.
\<close>

fun collect :: "(exn + string) list \<Rightarrow> exn + string list" where
  "collect [] = Inr []"
| "collect (Inl e # rs) = Inl e"
| "collect (Inr r # rs) = (case collect rs of Inl e \<Rightarrow> Inl e | Inr xs \<Rightarrow> Inr (r # xs))"

text \<open>
  \<open>main\<close> after \<open>parse_args\<close>. The pool runs one \<open>process_one\<close> per file; the calls are
  taken in the order of submission (the counters do not depend on the order in which they
  complete). The progress bar is left out.
\<close>

definition main :: "env \<Rightarrow> args \<Rightarrow> effect list \<times> (exn + int)" where
  "main w a =
     (if \<not> isdir w (args_input a)
      then ([PrintErr (''Input folder does not exist: '' @ args_input a)], Inr 2)
      else
        (case makedirs w (args_output a) of
           Some e \<Rightarrow> ([Makedirs (args_output a)], Inl e)
         | None \<Rightarrow>
             let files = list_images w (args_input a)
             in if files = []
                then ([Makedirs (args_output a), Print ''No images found in the input folder.''],
                      Inr 0)
                else if args_workers a \<le> 0
                then ([Makedirs (args_output a)],
                      Inl (ValueError ''max_workers must be greater than 0''))
                else
                  let runs = map (\<lambda>f. process_one w (args_input a) f (args_output a)
                                 (args_threshold a) (args_feather a) (args_dilate a)
                                 (args_keep_structure a)) files;
                      effects = Makedirs (args_output a) # concat (map fst runs)
                  in (case collect (map snd runs) of
                        Inl e \<Rightarrow> (effects, Inl e)
                      | Inr results \<Rightarrow>
                          (case summary results of
                             (ok, err, skip) \<Rightarrow>
                               (effects @
                                [Print (CHR 0x0A # ''Summary: '' @ str_nat ok @ '' OK, '' @ str_nat err @
                                        '' errors, '' @ str_nat skip @ '' skipped.'')],
                                Inr 0)))))"

section \<open>An example blur\<close>

text \<open>
  A blur to run the masker with: the 3x3 binomial kernel (weights 1, 2, 1 in each
  direction, sum 16), rounded to the nearest value, with the border reflected about the
  edge pixel.
\<close>

definition reflect :: "nat \<Rightarrow> int \<Rightarrow> nat" where
  "reflect n i =
     (if i < 0 then min (nat (- i)) (n - 1)
      else if int n \<le> i then (n - 1) - min (nat (i - int n + 1)) (n - 1)
      else nat i)"

definition tap :: "u8 grid \<Rightarrow> int \<Rightarrow> int \<Rightarrow> nat" where
  "tap a y x =
     (let row = a ! reflect (length a) y;
          xx = reflect (length row) x
      in if xx < length row then unat (row ! xx) else 0)"

definition binomial3 :: gauss where
  "binomial3 k a y x =
     (let t = (\<lambda>dy dx. tap a (int y + dy) (int x + dx))
      in of_nat ((t (- 1) (- 1) + 2 * t (- 1) 0 + t (- 1) 1 +
                  2 * t 0 (- 1) + 4 * t 0 0 + 2 * t 0 1 +
                  t 1 (- 1) + 2 * t 1 0 + t 1 1 + 8) div 16))"

text \<open>
  An image of two rows: three near-black pixels, then two pixels with a channel above
  the threshold 20.
\<close>

definition example_image :: "pixel_bgr grid" where
  "example_image =
     [[(0, 0, 0), (10, 20, 5), (20, 20, 20), (200, 100, 50), (255, 255, 255)],
      [(1, 2, 3), (0, 0, 0), (5, 5, 5), (90, 80, 70), (21, 0, 0)]]"

section \<open>Example runs\<close>

text \<open>
  A small tree: \<open>in/a.jpg\<close>, \<open>in/a.PNG\<close> (not decodable), \<open>in/notes.txt\<close> and
  \<open>in/sub/img.jpg\<close>, with the process running in \<open>/home/u\<close>. Every directory can be
  created and every write succeeds.
\<close>

definition example_env :: env where
  "example_env =
     \<lparr>getcwd = ''/home/u'',
      isdir = (\<lambda>p. p = ''in''),
      walk = (\<lambda>root. if root = ''in''
                then [(''in'', [''sub''], [''a.jpg'', ''a.PNG'', ''notes.txt'']),
                      (''in/sub'', [], [''img.jpg''])]
                else []),
      makedirs = (\<lambda>p. None),
      imread = (\<lambda>p. if p = ''in/a.PNG'' then None else Some [[(0, 0, 0), (200, 200, 200)]]),
      imwrite = (\<lambda>p img. Inr True),
      GaussianBlur = binomial3\<rparr>"

definition example_args :: "bool \<Rightarrow> args" where
  "example_args keep =
     \<lparr>args_input = ''in'', args_output = ''out'', args_threshold = 20, args_feather = 3,
      args_dilate = 1, args_workers = 4, args_keep_structure = keep\<rparr>"

text \<open>The same tree where \<open>out/sub\<close> cannot be created: a regular file has that name.\<close>

definition blocked_env :: env where
  "blocked_env =
     example_env\<lparr>makedirs :=
       (\<lambda>p. if p = ''out/sub'' then Some (OSError ''[Errno 17] File exists: out/sub'') else None)\<rparr>"

text \<open>An input directory without any image file.\<close>

definition empty_env :: env where
  "empty_env = example_env\<lparr>walk := (\<lambda>root. [(root, [], [''notes.txt''])])\<rparr>"

section \<open>Lemmas on the image operations\<close>

lemma dilate3x3_shape: "map length (dilate3x3 m) = map length m"
  by (rule nth_equalityI) (simp_all add: dilate3x3_def)

lemma dilate_times_shape: "map length (dilate_times m n) = map length m"
  by (induction n) (simp_all add: dilate_times_def dilate3x3_shape)

lemma fold_max_mem: "fold max xs (c::u8) \<in> insert c (set xs)"
  by (induction xs arbitrary: c) (auto simp: max_def)

lemma fold_max_ge: "(c::u8) \<le> fold max xs c"
proof (induction xs arbitrary: c)
  case Nil show ?case by simp
next
  case (Cons x xs)
  have "c \<le> max x c" by simp
  also have "\<dots> \<le> fold max xs (max x c)" by (rule Cons.IH)
  finally show ?case by simp
qed

lemma fold_max_mono:
  "list_all2 (\<le>) xs ys \<Longrightarrow> (c::u8) \<le> d \<Longrightarrow> fold max xs c \<le> fold max ys d"
proof (induction xs ys arbitrary: c d rule: list_all2_induct)
  case Nil then show ?case by simp
next
  case (Cons x xs y ys)
  have "max x c \<le> max y d" using Cons.hyps(1) Cons.prems by (auto simp: max_def)
  then show ?case using Cons.IH by simp
qed

lemma px_mem: "v \<in> set (px m y x) \<Longrightarrow> \<exists>row \<in> set m. v \<in> set row"
  by (auto simp: px_def split: if_splits)
   (metis nat_less_iff nth_mem)

lemma neighbours3x3_mem: "v \<in> set (neighbours3x3 m y x) \<Longrightarrow> \<exists>row \<in> set m. v \<in> set row"
  unfolding neighbours3x3_def by (auto dest: px_mem)

lemma dilate3x3_binary: "binary m \<Longrightarrow> binary (dilate3x3 m)"
  unfolding binary_def dilate3x3_def
  apply clarsimp
  subgoal for y x
    using fold_max_mem [of "neighbours3x3 m y x" "m ! y ! x"]
    by (metis insert_iff neighbours3x3_mem nth_mem)
  done

lemma dilate_times_binary: "binary m \<Longrightarrow> binary (dilate_times m n)"
  by (induction n) (simp_all add: dilate_times_def dilate3x3_binary)

lemma not_u8: "NOT (a::u8) = 255 - a"
  by (simp add: not_eq_complement)

lemma unat_not_u8: "unat (NOT (a::u8)) = 255 - unat a"
proof -
  have "a \<le> 255" using unsigned_less [of a, where ?'a = nat] by (simp add: word_le_nat_alt)
  then have "unat (255 - a) = unat (255::u8) - unat a" by (rule unat_sub)
  then show ?thesis by (simp add: not_u8)
qed

lemma not_antimono: "(a::u8) \<le> b \<Longrightarrow> NOT b \<le> NOT a"
  by (simp add: word_le_nat_alt unat_not_u8)

lemma not_zero_iff: "NOT (a::u8) = 0 \<longleftrightarrow> a = 255"
proof
  assume "NOT a = 0"
  then have "NOT (NOT a) = NOT 0" by simp
  then show "a = 255" by simp
qed simp

lemma map2_right:
  assumes "length xs = length ys" and "\<And>x y. h (f x y) = y"
  shows "map h (map2 f xs ys) = ys"
  using assms by (induction xs ys rule: list_induct2) simp_all

lemma map2_left:
  assumes "length xs = length ys" and "\<And>x y. x \<in> set xs \<Longrightarrow> h (f x y) = k x"
  shows "map h (map2 f xs ys) = map k xs"
  using assms by (induction xs ys rule: list_induct2) simp_all

lemma map_length_eq_imp: "map length a = map length b \<Longrightarrow> length a = length b"
  by (metis length_map)

lemma alpha_channel_set_alpha:
  assumes "map length alpha = map length bgra"
  shows "alpha_channel (set_alpha bgra alpha) = alpha"
proof -
  have len: "length bgra = length alpha" using assms by (metis length_map)
  have "list_all2 (\<lambda>row arow. length row = length arow) bgra alpha"
    using assms len by (simp add: list_all2_conv_all_nth) (metis nth_map)
  then show ?thesis
    unfolding alpha_channel_def set_alpha_def
  proof (induction bgra alpha rule: list_all2_induct)
    case Nil then show ?case by simp
  next
    case (Cons row bgra arow alpha)
    have "map (\<lambda>(b, g, r, a). a) (map2 (\<lambda>(b, g, r, _) a. (b, g, r, a)) row arow) = arow"
      using Cons.hyps(1) by (intro map2_right) auto
    then show ?case using Cons.IH by simp
  qed
qed

lemma color_channels_set_alpha:
  assumes "map length alpha = map length bgr"
  shows "color_channels (set_alpha (cvtColor_BGR2BGRA bgr) alpha) = bgr"
proof -
  have len: "length bgr = length alpha" using assms by (metis length_map)
  have "list_all2 (\<lambda>row arow. length row = length arow) bgr alpha"
    using assms len by (simp add: list_all2_conv_all_nth) (metis nth_map)
  then show ?thesis
    unfolding color_channels_def set_alpha_def cvtColor_BGR2BGRA_def
  proof (induction bgr alpha rule: list_all2_induct)
    case Nil then show ?case by simp
  next
    case (Cons row bgr arow alpha)
    have "map (\<lambda>(b, g, r, a). (b, g, r))
            (map2 (\<lambda>(b, g, r, _) a. (b, g, r, a)) (map (\<lambda>(b, g, r). (b, g, r, 255::u8)) row) arow)
          = map (\<lambda>(b, g, r, a). (b, g, r)) (map (\<lambda>(b, g, r). (b, g, r, 255::u8)) row)"
      using Cons.hyps(1) by (intro map2_left) auto
    also have "\<dots> = row" by (induction row) auto
    finally show ?case using Cons.IH by simp
  qed
qed

lemma set_alpha_shape:
  assumes "map length alpha = map length bgr"
  shows "map length (set_alpha (cvtColor_BGR2BGRA bgr) alpha) = map length bgr"
proof -
  have "map length (color_channels (set_alpha (cvtColor_BGR2BGRA bgr) alpha)) = map length bgr"
    using color_channels_set_alpha [OF assms] by simp
  then show ?thesis by (simp add: color_channels_def comp_def)
qed

lemma black_mask_shape: "map length (astype_uint8_times_255 (black_mask bgr t)) = map length bgr"
  by (simp add: astype_uint8_times_255_def black_mask_def comp_def)

lemma bitwise_not_shape: "map length (bitwise_not m) = map length m"
  by (simp add: bitwise_not_def comp_def)

lemma GaussianBlur_shape: "map length (blur_plane g a k) = map length a"
  by (rule nth_equalityI) (simp_all add: blur_plane_def)

lemma inverted_mask_shape: "map length (inverted_mask bgr t d) = map length bgr"
  by (simp add: inverted_mask_def Let_def bitwise_not_shape dilate_times_shape black_mask_shape)

lemma inverted_mask_eq:
  "inverted_mask bgr t d = bitwise_not (dilate_times (astype_uint8_times_255 (black_mask bgr t)) (nat d))"
  by (simp add: inverted_mask_def Let_def dilate_times_def)

lemma feather_guard: "(f \<noteq> 0 \<and> 0 < f \<and> f mod 2 = 1) = (0 < f \<and> odd f)" for f :: int
  by (auto simp: odd_iff_mod_2_eq_one)

lemma rbba_Inr:
  assumes "np_size bgr \<noteq> 0" and "cv2_accepts f d"
  shows "remove_black_background_array g (Some bgr) t f d =
     Inr (set_alpha (cvtColor_BGR2BGRA bgr)
       (if 0 < f \<and> odd f then blur_plane g (inverted_mask bgr t d) f
        else inverted_mask bgr t d))"
proof -
  define mask where "mask = astype_uint8_times_255 (black_mask bgr t)"
  have dil: "(if 0 < d then cv2_dilate mask d else Inr mask) =
      Inr (if 0 < d then dilate_times mask (nat d) else mask)"
    using assms(2) by (simp add: cv2_accepts_def cv2_dilate_def)
  have blur: "(if 0 < f \<and> odd f then cv2_GaussianBlur g a f else Inr a) =
      Inr (if 0 < f \<and> odd f then blur_plane g a f else a)" for a
    using assms(2) by (simp add: cv2_accepts_def cv2_GaussianBlur_def)
  show ?thesis
    using assms(1)
    by (simp add: remove_black_background_array_def inverted_mask_def Let_def feather_guard
        dil [unfolded mask_def] blur)
qed

lemma rbba_Inl:
  assumes "np_size bgr \<noteq> 0" and "\<not> cv2_accepts f d"
  shows "\<exists>e. remove_black_background_array g (Some bgr) t f d = Inl e"
proof (cases "0 < d \<and> \<not> fits_c_int d")
  case True
  then show ?thesis
    using assms(1)
    by (simp add: remove_black_background_array_def Let_def cv2_dilate_def)
next
  case False
  with assms(2) have f: "0 < f" "odd f" "\<not> fits_c_int f"
    by (auto simp: cv2_accepts_def)
  define mask where "mask = astype_uint8_times_255 (black_mask bgr t)"
  have dil: "(if 0 < d then cv2_dilate mask d else Inr mask) =
      Inr (if 0 < d then dilate_times mask (nat d) else mask)"
    using False by (auto simp: cv2_dilate_def)
  have m: "f mod 2 = 1" using f(2) by (simp add: odd_iff_mod_2_eq_one)
  show ?thesis
    using assms(1) f m
    by (simp add: remove_black_background_array_def Let_def
        dil [unfolded mask_def] cv2_GaussianBlur_def)
qed

lemma rbba_returns:
  assumes "np_size bgr \<noteq> 0"
  shows "(\<exists>bgra. remove_black_background_array g (Some bgr) t f d = Inr bgra) \<longleftrightarrow>
     cv2_accepts f d"
proof (cases "cv2_accepts f d")
  case True
  with rbba_Inr [OF assms True, of g t] show ?thesis by simp
next
  case False
  with rbba_Inl [OF assms False, of g t] show ?thesis by auto
qed

lemma final_alpha_shape:
  "map length (if 0 < f \<and> odd f then blur_plane g (inverted_mask bgr t d) f
        else inverted_mask bgr t d) = map length bgr"
  by (simp add: GaussianBlur_shape inverted_mask_shape)

lemma rbba_result:
  assumes "np_size bgr \<noteq> 0" and "cv2_accepts f d"
  shows "\<exists>bgra. remove_black_background_array g (Some bgr) t f d = Inr bgra \<and>
     map length bgra = map length bgr \<and> color_channels bgra = bgr \<and>
     alpha_channel bgra =
       (if 0 < f \<and> odd f then blur_plane g (inverted_mask bgr t d) f
        else inverted_mask bgr t d)"
proof -
  let ?a = "if 0 < f \<and> odd f then blur_plane g (inverted_mask bgr t d) f
        else inverted_mask bgr t d"
  have sh: "map length ?a = map length bgr" by (rule final_alpha_shape)
  have "map length (cvtColor_BGR2BGRA bgr) = map length bgr"
    by (simp add: cvtColor_BGR2BGRA_def comp_def)
  with sh have "alpha_channel (set_alpha (cvtColor_BGR2BGRA bgr) ?a) = ?a"
    by (intro alpha_channel_set_alpha) simp
  then show ?thesis
    using rbba_Inr [OF assms, of g t] set_alpha_shape [OF sh] color_channels_set_alpha [OF sh]
    by simp
qed

lemma rbba_alpha:
  assumes "np_size bgr \<noteq> 0"
    and "remove_black_background_array g (Some bgr) t f d = Inr bgra"
  shows "map length bgra = map length bgr \<and> color_channels bgra = bgr \<and>
     alpha_channel bgra =
       (if 0 < f \<and> odd f then blur_plane g (inverted_mask bgr t d) f
        else inverted_mask bgr t d)"
proof -
  from assms have "cv2_accepts f d" using rbba_returns [OF assms(1), of g t f d] by blast
  from rbba_result [OF assms(1) this, of g t] assms(2) show ?thesis by simp
qed

lemma mask_binary: "binary (astype_uint8_times_255 (black_mask bgr t))"
  by (auto simp: binary_def astype_uint8_times_255_def black_mask_def)

lemma not_u8_consts: "NOT (0::u8) = 255" "NOT (255::u8) = 0"
  by simp_all

lemma bitwise_not_binary: "binary m \<Longrightarrow> binary (bitwise_not m)"
  unfolding binary_def bitwise_not_def
  by (fastforce simp: not_u8_consts)

lemma inverted_mask_binary: "binary (inverted_mask bgr t d)"
  unfolding inverted_mask_eq
  by (intro bitwise_not_binary dilate_times_binary mask_binary)

lemma inverted_mask_0_nth:
  assumes "y < length bgr" "x < length (bgr ! y)"
  shows "inverted_mask bgr t 0 ! y ! x =
     (case bgr ! y ! x of (b, g, r) \<Rightarrow>
        if uint b \<le> t \<and> uint g \<le> t \<and> uint r \<le> t then 0 else 255)"
  using assms
  by (simp add: inverted_mask_def bitwise_not_def astype_uint8_times_255_def black_mask_def
      not_u8_consts split: prod.splits)

lemma grid_le_refl: "grid_le a a"
  by (simp add: grid_le_def list_all2_conv_all_nth)

lemma grid_le_trans: "grid_le a b \<Longrightarrow> grid_le b c \<Longrightarrow> grid_le a c"
proof -
  have row: "list_all2 (\<le>) xs zs"
    if "list_all2 (\<le>) xs ys" "list_all2 (\<le>) ys zs" for xs ys zs :: "u8 list"
    using order_trans that by (rule list_all2_trans)
  assume "grid_le a b" "grid_le b c"
  then show ?thesis
    unfolding grid_le_def using row by (rule list_all2_trans [rotated])
qed

lemma dilate3x3_extensive: "grid_le m (dilate3x3 m)"
  by (simp add: grid_le_def dilate3x3_def list_all2_conv_all_nth fold_max_ge)

lemma funpow_dilate_extensive: "grid_le m ((dilate3x3 ^^ k) m)"
proof (induction k)
  case 0 show ?case by (simp add: grid_le_refl)
next
  case (Suc k)
  have "grid_le ((dilate3x3 ^^ k) m) (dilate3x3 ((dilate3x3 ^^ k) m))"
    by (rule dilate3x3_extensive)
  with Suc show ?case by (auto intro: grid_le_trans)
qed

lemma dilate_times_mono_iterations:
  assumes "n1 \<le> n2"
  shows "grid_le (dilate_times m n1) (dilate_times m n2)"
proof -
  obtain k where k: "n2 = k + n1" using assms by (metis le_add_diff_inverse2)
  have "dilate_times m n2 = (dilate3x3 ^^ k) (dilate_times m n1)"
    by (simp add: dilate_times_def k funpow_add)
  then show ?thesis by (simp add: funpow_dilate_extensive)
qed

lemma bitwise_not_antimono: "grid_le a b \<Longrightarrow> grid_le (bitwise_not b) (bitwise_not a)"
  by (auto simp: grid_le_def bitwise_not_def list_all2_conv_all_nth not_antimono)

lemma inverted_mask_antimono:
  assumes "d1 \<le> d2"
  shows "grid_le (inverted_mask bgr t d2) (inverted_mask bgr t d1)"
  unfolding inverted_mask_eq
  using assms by (intro bitwise_not_antimono dilate_times_mono_iterations) simp

lemma set_transparent:
  "set (transparent bgra) =
     {(y, x). y < length (alpha_channel bgra) \<and> x < length (alpha_channel bgra ! y) \<and>
        alpha_channel bgra ! y ! x = 0}"
  by (auto simp: transparent_def Let_def)

lemma grid_le_zero:
  assumes "grid_le a b" "y < length b" "x < length (b ! y)" "b ! y ! x = 0"
  shows "y < length a \<and> x < length (a ! y) \<and> a ! y ! x = 0"
proof -
  have l: "length a = length b" using assms(1) by (simp add: grid_le_def list_all2_lengthD)
  have row: "list_all2 (\<le>) (a ! y) (b ! y)"
    using assms(1,2) l by (simp add: grid_le_def list_all2_conv_all_nth)
  then have l2: "length (a ! y) = length (b ! y)" by (rule list_all2_lengthD)
  have "a ! y ! x \<le> b ! y ! x" using row assms(3) l2 by (simp add: list_all2_conv_all_nth)
  then show ?thesis using assms l l2 by simp
qed

section \<open>Lemmas on outcomes and the summary\<close>

lemma process_one_cases:
  assumes "process_one w root in_path out th fe di ks = (effs, Inr r)"
  shows "(\<exists>p. r = ''OK: '' @ p) \<or> (\<exists>p. r = ''ERROR ('' @ p) \<or> r = ''SKIP (unreadable): '' @ in_path"
  using assms
  by (auto simp: process_one_def Let_def split: sum.splits option.splits if_splits)

lemma process_one_one_prefix:
  assumes "process_one w root in_path out th fe di ks = (effs, Inr r)"
  shows "one_prefix r"
  using process_one_cases [OF assms] by (auto simp: one_prefix_def)

lemma summary_total:
  assumes "\<forall>r \<in> set rs. one_prefix r"
  shows "(case summary rs of (ok, err, skip) \<Rightarrow> ok + err + skip) = length rs"
  using assms
proof (induction rs)
  case Nil
  show ?case by (simp add: summary_def)
next
  case (Cons r rs)
  then have "one_prefix r" and ih: "(case summary rs of (ok, err, skip) \<Rightarrow> ok + err + skip) = length rs"
    by simp_all
  then show ?case
    unfolding summary_def one_prefix_def by (simp split: prod.splits) linarith
qed

lemma collect_Inr: "collect xs = Inr rs \<Longrightarrow> xs = map Inr rs"
  by (induction xs arbitrary: rs rule: collect.induct) (auto split: sum.splits)

lemma collect_process_one:
  assumes "collect (map (\<lambda>f. snd (process_one w root f out th fe di ks)) files) = Inr results"
  shows "length results = length files \<and> (\<forall>r \<in> set results. one_prefix r)"
proof -
  from collect_Inr [OF assms]
  have eq: "map (\<lambda>f. snd (process_one w root f out th fe di ks)) files = map Inr results" .
  then have len: "length results = length files" by (metis length_map)
  have "one_prefix r" if "r \<in> set results" for r
  proof -
    from that obtain i where i: "i < length results" "results ! i = r"
      by (auto simp: in_set_conv_nth)
    with eq len have "snd (process_one w root (files ! i) out th fe di ks) = Inr r"
      by (metis nth_map)
    then obtain effs where "process_one w root (files ! i) out th fe di ks = (effs, Inr r)"
      by (metis prod.collapse)
    then show ?thesis by (rule process_one_one_prefix)
  qed
  with len show ?thesis by blast
qed

lemma main_summary:
  assumes "isdir w (args_input a)" and "list_images w (args_input a) \<noteq> []"
    and "main w a = (effs, Inr code)"
  shows "code = 0 \<and> (\<exists>ok err skip pre.
      effs = pre @ [Print (CHR 0x0A # ''Summary: '' @ str_nat ok @ '' OK, '' @ str_nat err @
                            '' errors, '' @ str_nat skip @ '' skipped.'')] \<and>
      ok + err + skip = length (list_images w (args_input a)))"
proof -
  let ?files = "list_images w (args_input a)"
  let ?runs = "map (\<lambda>f. process_one w (args_input a) f (args_output a)
                 (args_threshold a) (args_feather a) (args_dilate a) (args_keep_structure a)) ?files"
  from assms obtain results where
    c: "collect (map snd ?runs) = Inr results"
    and e: "effs = (Makedirs (args_output a) # concat (map fst ?runs)) @
       (case summary results of (ok, err, skip) \<Rightarrow>
          [Print (CHR 0x0A # ''Summary: '' @ str_nat ok @ '' OK, '' @ str_nat err @
                            '' errors, '' @ str_nat skip @ '' skipped.'')])"
    and code: "code = 0"
    by (auto simp: main_def Let_def split: if_splits option.splits sum.splits prod.splits)
  from c have c': "collect (map (\<lambda>f. snd (process_one w (args_input a) f (args_output a)
                 (args_threshold a) (args_feather a) (args_dilate a) (args_keep_structure a))) ?files) = Inr results"
    by (simp add: comp_def)
  from collect_process_one [OF c'] have "length results = length ?files" "\<forall>r \<in> set results. one_prefix r"
    by blast+
  with summary_total [of results]
  have "(case summary results of (ok, err, skip) \<Rightarrow> ok + err + skip) = length ?files" by simp
  with e code show ?thesis by (auto split: prod.splits)
qed

section \<open>Lemmas on path names\<close>

lemma takeWhile_rev_all: "c \<notin> set f \<Longrightarrow> takeWhile (\<lambda>d. d \<noteq> c) (rev f) = rev f"
  by (rule takeWhile_eq_all_conv [THEN iffD2]) auto

lemma dropWhile_rev_all: "c \<notin> set f \<Longrightarrow> dropWhile (\<lambda>d. d \<noteq> c) (rev f) = []"
  by (rule dropWhile_eq_Nil_conv [THEN iffD2]) auto

lemma prefix_sep_iff: "prefix [sep] b \<longleftrightarrow> b \<noteq> [] \<and> hd b = sep"
  by (cases b) auto

lemma suffix_sep_iff: "suffix [sep] t \<longleftrightarrow> t \<noteq> [] \<and> last t = sep"
  by (cases t rule: rev_cases) (auto simp: suffix_def)

lemma drop_rfind: "drop (nat (rfind p c + 1)) p = rev (takeWhile (\<lambda>d. d \<noteq> c) (rev p))"
proof (cases "c \<in> set p")
  case False
  then show ?thesis by (simp add: rfind_def takeWhile_rev_all)
next
  case True
  let ?k = "length (takeWhile (\<lambda>d. d \<noteq> c) (rev p))"
  have k: "?k \<le> length p" using length_takeWhile_le [of "\<lambda>d. d \<noteq> c" "rev p"] by simp
  have "rev (takeWhile (\<lambda>d. d \<noteq> c) (rev p)) = rev (take ?k (rev p))"
    by (simp add: takeWhile_eq_take [symmetric])
  also have "\<dots> = drop (length p - ?k) p" by (simp add: rev_take)
  finally show ?thesis using True k by (simp add: rfind_def nat_diff_distrib' of_nat_diff)
qed

lemma take_rfind: "take (nat (rfind p c + 1)) p = rev (dropWhile (\<lambda>d. d \<noteq> c) (rev p))"
proof -
  have "take (nat (rfind p c + 1)) p @ drop (nat (rfind p c + 1)) p =
        rev (dropWhile (\<lambda>d. d \<noteq> c) (rev p)) @ rev (takeWhile (\<lambda>d. d \<noteq> c) (rev p))"
    by (simp flip: rev_append)
  then show ?thesis unfolding drop_rfind by simp
qed

lemma basename_eq: "basename p = rev (takeWhile (\<lambda>d. d \<noteq> sep) (rev p))"
  by (simp add: basename_def drop_rfind)

lemma sep_notin_basename: "sep \<notin> set (basename p)"
  unfolding basename_eq using set_takeWhileD [of sep "\<lambda>d. d \<noteq> sep" "rev p"] by auto

lemma basename_append:
  assumes "sep \<notin> set f" and "a = [] \<or> last a = sep"
  shows "basename (a @ f) = f"
proof -
  have "takeWhile (\<lambda>d. d \<noteq> sep) (rev f @ rev a) = rev f"
  proof (cases "a = []")
    case True
    with assms(1) show ?thesis by (simp add: takeWhile_rev_all)
  next
    case False
    with assms(2) have "hd (rev a) = sep" "rev a \<noteq> []" by (simp_all add: hd_rev)
    then obtain m where "rev a = sep # m" by (cases "rev a") auto
    with assms(1) show ?thesis by (auto simp: takeWhile_append)
  qed
  then show ?thesis by (simp add: basename_eq)
qed

lemma head_append:
  assumes "sep \<notin> set f" and "a = [] \<or> last a = sep"
  shows "rev (dropWhile (\<lambda>d. d \<noteq> sep) (rev (a @ f))) = a"
proof -
  have "dropWhile (\<lambda>d. d \<noteq> sep) (rev f @ rev a) = rev a"
  proof (cases "a = []")
    case True
    with assms(1) show ?thesis by (simp add: dropWhile_rev_all)
  next
    case False
    with assms(2) have "hd (rev a) = sep" "rev a \<noteq> []" by (simp_all add: hd_rev)
    then obtain m where "rev a = sep # m" by (cases "rev a") auto
    with assms(1) show ?thesis by (auto simp: dropWhile_append)
  qed
  then show ?thesis by simp
qed

lemma join_relative:
  assumes "\<not> prefix [sep] b"
  shows "join t b = (if t = [] \<or> last t = sep then t else t @ [sep]) @ b"
  using assms by (auto simp: join_def suffix_sep_iff)

lemma splitext_fst_set: "set (fst (splitext q)) \<subseteq> set q"
  by (auto simp: splitext_def Let_def dest: in_set_takeD)

lemma addsep_end: "addsep t = [] \<or> last (addsep t) = sep"
  by (simp add: addsep_def)

lemma join_addsep: "\<not> prefix [sep] b \<Longrightarrow> join t b = addsep t @ b"
  by (simp add: join_relative addsep_def)

lemma sep_notin_stem: "sep \<notin> set (fst (splitext (basename p)))"
  using splitext_fst_set [of "basename p"] sep_notin_basename [of p] by blast

lemma sep_notin_png: "sep \<notin> set (fst (splitext (basename p)) @ ''.png'')"
  using sep_notin_stem [of p] by (simp add: sep_def)

lemma out_path_of_eq: "out_path_of t p = addsep t @ fst (splitext (basename p)) @ ''.png''"
proof -
  have "\<not> prefix [sep] (fst (splitext (basename p)) @ ''.png'')"
  proof
    assume "prefix [sep] (fst (splitext (basename p)) @ ''.png'')"
    then obtain zs where "fst (splitext (basename p)) @ ''.png'' = [sep] @ zs"
      unfolding prefix_def by blast
    then have "sep \<in> set (fst (splitext (basename p)) @ ''.png'')"
      by (simp only: set_append set_simps) blast
    with sep_notin_png [of p] show False by blast
  qed
  then show ?thesis by (simp add: out_path_of_def Let_def join_addsep)
qed

lemma basename_out_path_of: "basename (out_path_of t p) = fst (splitext (basename p)) @ ''.png''"
  unfolding out_path_of_eq using sep_notin_png [of p] addsep_end [of t]
  by (intro basename_append) simp_all

lemma out_path_of_inj:
  "out_path_of t1 p1 = out_path_of t2 p2 \<longleftrightarrow>
     addsep t1 = addsep t2 \<and> fst (splitext (basename p1)) = fst (splitext (basename p2))"
proof
  assume eq: "out_path_of t1 p1 = out_path_of t2 p2"
  then have "basename (out_path_of t1 p1) = basename (out_path_of t2 p2)" by simp
  then have st: "fst (splitext (basename p1)) = fst (splitext (basename p2))"
    by (simp add: basename_out_path_of)
  with eq have "addsep t1 = addsep t2" by (simp add: out_path_of_eq)
  with st show "addsep t1 = addsep t2 \<and> fst (splitext (basename p1)) = fst (splitext (basename p2))"
    by simp
next
  assume "addsep t1 = addsep t2 \<and> fst (splitext (basename p1)) = fst (splitext (basename p2))"
  then show "out_path_of t1 p1 = out_path_of t2 p2" by (simp add: out_path_of_eq)
qed

lemma str_split_nonempty: "str_split s c \<noteq> []"
  by (induction s) (auto split: list.splits)

lemma str_split_free: "w \<in> set (str_split s c) \<Longrightarrow> c \<notin> set w"
proof (induction s arbitrary: w)
  case Nil then show ?case by simp
next
  case (Cons x xs)
  show ?case
  proof (cases "x = c")
    case True
    with Cons show ?thesis by auto
  next
    case False
    obtain v vs where v: "str_split xs c = v # vs"
      using str_split_nonempty [of xs c] by (cases "str_split xs c") auto
    with False Cons.prems have "w = x # v \<or> w \<in> set vs" by simp
    with Cons.IH [of v] Cons.IH [of w] v False show ?thesis by auto
  qed
qed

lemma component_ends: "component x \<Longrightarrow> hd x \<noteq> sep \<and> last x \<noteq> sep"
  by (metis component_def hd_in_set last_in_set)

lemma join_component:
  assumes "acc \<noteq> []" "last acc \<noteq> sep" "component b"
  shows "join acc b = acc @ [sep] @ b"
  using assms by (cases b) (auto simp: join_def component_def prefix_sep_iff suffix_sep_iff)

lemma foldl_join_components:
  assumes "\<forall>b \<in> set bs. component b" "acc \<noteq> []" "hd acc \<noteq> sep" "last acc \<noteq> sep"
  shows "foldl join acc bs \<noteq> [] \<and> hd (foldl join acc bs) \<noteq> sep \<and>
         last (foldl join acc bs) \<noteq> sep"
  using assms
proof (induction bs arbitrary: acc)
  case Nil then show ?case by simp
next
  case (Cons b bs)
  then have b: "component b" by simp
  with Cons.prems have j: "join acc b = acc @ [sep] @ b" by (simp add: join_component)
  have "last (acc @ [sep] @ b) \<noteq> sep" using b component_ends [of b] by (simp add: component_def)
  moreover have "hd (acc @ [sep] @ b) \<noteq> sep" using Cons.prems by simp
  ultimately show ?case using Cons.IH [of "join acc b"] Cons.prems(1) j by simp
qed

lemma join_list_components:
  assumes "xs \<noteq> []" "\<forall>x \<in> set xs. component x"
  shows "join_list xs \<noteq> [] \<and> hd (join_list xs) \<noteq> sep \<and> last (join_list xs) \<noteq> sep"
proof -
  obtain x rest where xs: "xs = x # rest" using assms(1) by (cases xs) auto
  with assms(2) have "component x" "\<forall>b \<in> set rest. component b" by simp_all
  with component_ends [of x] show ?thesis
    unfolding join_list_def xs using foldl_join_components [of rest x]
    by (simp add: component_def)
qed

lemma split_filter_components: "\<forall>x \<in> set (filter (\<lambda>x. x \<noteq> []) (str_split s sep)). component x"
proof
  fix x
  assume "x \<in> set (filter (\<lambda>x. x \<noteq> []) (str_split s sep))"
  then have "x \<noteq> []" and "x \<in> set (str_split s sep)" by simp_all
  then show "component x" using str_split_free [of x s sep] by (simp add: component_def)
qed

lemma relpath_shape:
  assumes "relpath cwd p s = Inr r"
  shows "r \<noteq> [] \<and> hd r \<noteq> sep \<and> last r \<noteq> sep"
proof -
  define sl where "sl = filter (\<lambda>x. x \<noteq> []) (str_split (abspath cwd s) sep)"
  define pl where "pl = filter (\<lambda>x. x \<noteq> []) (str_split (abspath cwd p) sep)"
  define rl where
    "rl = replicate (length sl - length (commonprefix sl pl)) ''..'' @
          drop (length (commonprefix sl pl)) pl"
  have comp: "\<forall>x \<in> set rl. component x"
  proof
    fix x
    assume "x \<in> set rl"
    then have "x = ''..'' \<or> x \<in> set pl"
      unfolding rl_def by (auto dest: in_set_dropD)
    moreover have "component ''..''" by (simp add: component_def sep_def)
    moreover have "\<forall>x \<in> set pl. component x"
      unfolding pl_def by (rule split_filter_components)
    ultimately show "component x" by blast
  qed
  have ne: "p \<noteq> []"
  proof
    assume "p = []"
    then have "relpath cwd p s = Inl (ValueError ''no path specified'')"
      by (simp add: relpath_def)
    with assms show False by simp
  qed
  have "relpath cwd p s = (if rl = [] then Inr ''.'' else Inr (join_list rl))"
    unfolding relpath_def Let_def rl_def sl_def pl_def using ne by (rule if_not_P)
  with assms have r: "(if rl = [] then Inr ''.'' else Inr (join_list rl)) = (Inr r :: exn + string)"
    by simp
  show ?thesis
  proof (cases "rl = []")
    case True
    with r show ?thesis by (auto simp: sep_def)
  next
    case False
    with r join_list_components [OF False comp] show ?thesis by auto
  qed
qed

lemma target_dir_flat: "target_dir_of cwd root p out False = Inr (join out [])"
  by (simp add: target_dir_of_def)

lemma target_dir_kept:
  "target_dir_of cwd root p out True =
     (case relpath cwd (dirname p) root of Inl e \<Rightarrow> Inl e | Inr rel \<Rightarrow> Inr (join out rel))"
  by (simp add: target_dir_of_def)

lemma addsep_join_rel:
  assumes "rel \<noteq> []" "hd rel \<noteq> sep" "last rel \<noteq> sep"
  shows "addsep (join out rel) = addsep out @ rel @ [sep]"
proof -
  have "\<not> prefix [sep] rel" using assms by (simp add: prefix_sep_iff)
  then have j: "join out rel = addsep out @ rel" by (rule join_addsep)
  have "addsep out @ rel \<noteq> []" "last (addsep out @ rel) \<noteq> sep" using assms by simp_all
  then show ?thesis unfolding j by (simp add: addsep_def)
qed

section \<open>Lemmas on splitting, joining and normalising\<close>

lemma str_split_free_id: "c \<notin> set w \<Longrightarrow> str_split w c = [w]"
  by (induction w) auto

lemma str_split_sep_free_prefix:
  "c \<notin> set w \<Longrightarrow> str_split (w @ c # ys) c = w # str_split ys c"
  by (induction w) auto

lemma str_split_append_free:
  "c \<notin> set w \<Longrightarrow> str_split (xs @ w) c = butlast (str_split xs c) @ [last (str_split xs c) @ w]"
proof (induction xs)
  case Nil
  then show ?case by (simp add: str_split_free_id)
next
  case (Cons x xs)
  obtain v vs where v: "str_split xs c = v # vs"
    using str_split_nonempty [of xs c] by (cases "str_split xs c") auto
  obtain u us where u: "str_split (xs @ w) c = u # us"
    using str_split_nonempty [of "xs @ w" c] by (cases "str_split (xs @ w) c") auto
  from Cons v u have ih: "u # us = butlast (v # vs) @ [last (v # vs) @ w]" by simp
  show ?case
  proof (cases "x = c")
    case True
    with Cons v show ?thesis by simp
  next
    case False
    show ?thesis
    proof (cases vs)
      case Nil
      with ih v u False show ?thesis by simp
    next
      case (Cons a as)
      with ih v u False show ?thesis by simp
    qed
  qed
qed

lemma str_split_snoc_sep: "str_split (xs @ [c]) c = str_split xs c @ [[]]"
proof (induction xs)
  case Nil show ?case by simp
next
  case (Cons x xs)
  obtain v vs where v: "str_split xs c = v # vs"
    using str_split_nonempty [of xs c] by (cases "str_split xs c") auto
  with Cons show ?case by simp
qed

lemma str_split_join:
  assumes "xs \<noteq> []" "\<forall>x \<in> set xs. c \<notin> set x"
  shows "str_split (str_join [c] xs) c = xs"
  using assms
proof (induction xs)
  case Nil then show ?case by simp
next
  case (Cons x xs)
  show ?case
  proof (cases xs)
    case Nil
    with Cons.prems show ?thesis by (simp add: str_split_free_id)
  next
    case (Cons y ys)
    with Cons.IH Cons.prems have "str_split (str_join [c] (y # ys)) c = y # ys" by simp
    with Cons Cons.prems show ?thesis by (simp add: str_split_sep_free_prefix)
  qed
qed

lemma str_split_dir_append:
  assumes "xs \<noteq> []" "\<forall>x \<in> set xs. c \<notin> set x"
  shows "str_split (r @ c # str_join [c] xs) c = str_split r c @ xs"
proof (induction r)
  case Nil
  with assms show ?case by (simp add: str_split_join)
next
  case (Cons a r)
  obtain v vs where v: "str_split r c = v # vs"
    using str_split_nonempty [of r c] by (cases "str_split r c") auto
  with Cons show ?case by simp
qed

lemma str_join_ends:
  assumes "xs \<noteq> []" "\<forall>x \<in> set xs. component x"
  shows "str_join [sep] xs \<noteq> [] \<and> hd (str_join [sep] xs) \<noteq> sep \<and>
         last (str_join [sep] xs) \<noteq> sep"
  using assms
proof (induction xs)
  case Nil then show ?case by simp
next
  case (Cons x xs)
  from Cons.prems have x: "x \<noteq> []" "hd x \<noteq> sep" "last x \<noteq> sep"
    using component_ends [of x] by (simp_all add: component_def)
  show ?case
  proof (cases xs)
    case Nil
    with x show ?thesis by simp
  next
    case (Cons y ys)
    with Cons.IH Cons.prems
    have "str_join [sep] (y # ys) \<noteq> []" "last (str_join [sep] (y # ys)) \<noteq> sep"
      by simp_all
    with x Cons show ?thesis by simp
  qed
qed

lemma foldl_join_str_join:
  assumes "\<forall>b \<in> set bs. component b" "acc \<noteq> []" "last acc \<noteq> sep"
  shows "foldl join acc bs = str_join [sep] (acc # bs)"
  using assms
proof (induction bs arbitrary: acc)
  case Nil then show ?case by simp
next
  case (Cons b bs)
  then have b: "component b" by simp
  with Cons.prems have j: "join acc b = acc @ [sep] @ b" by (simp add: join_component)
  have "foldl join (acc @ [sep] @ b) bs = str_join [sep] ((acc @ [sep] @ b) # bs)"
    using Cons.prems b component_ends [of b] by (intro Cons.IH) (auto simp: component_def)
  also have "\<dots> = str_join [sep] (acc # b # bs)" by (cases bs) simp_all
  finally show ?case using j by simp
qed

lemma join_list_str_join:
  assumes "xs \<noteq> []" "\<forall>x \<in> set xs. component x"
  shows "join_list xs = str_join [sep] xs"
proof -
  obtain x rest where xs: "xs = x # rest" using assms(1) by (cases xs) auto
  with assms(2) component_ends [of x] show ?thesis
    unfolding join_list_def xs by (simp add: foldl_join_str_join component_def)
qed

lemma commonprefix_append: "commonprefix xs (xs @ ys) = xs"
  by (induction xs) simp_all

lemma step_clean: "clean x \<Longrightarrow> normpath_step k acc x = acc @ [x]"
  by (simp add: normpath_step_def clean_def component_def)

lemma foldl_step_clean:
  "\<forall>x \<in> set xs. clean x \<Longrightarrow> foldl (normpath_step k) acc xs = acc @ xs"
proof (induction xs arbitrary: acc)
  case Nil
  show ?case by simp
next
  case (Cons x xs)
  then have "clean x" and rest: "\<forall>x \<in> set xs. clean x" by simp_all
  then have "normpath_step k acc x = acc @ [x]" by (simp only: step_clean)
  then show ?case using Cons.IH [OF rest, of "acc @ [x]"] by simp
qed

lemma step_abs: "k \<noteq> 0 \<Longrightarrow> normpath_step k acc c = normpath_step (Suc 0) acc c"
  unfolding normpath_step_def by (cases "k = 0") simp_all

lemma foldl_step_abs:
  "k \<noteq> 0 \<Longrightarrow> foldl (normpath_step k) acc cs = foldl (normpath_step (Suc 0)) acc cs"
proof (induction cs arbitrary: acc)
  case Nil
  show ?case by simp
next
  case (Cons c cs)
  then show ?case by (simp only: foldl_Cons step_abs [OF Cons.prems])
qed

lemma split_replicate: "str_split (replicate k c @ xs) c = replicate k [] @ str_split xs c"
proof (induction k)
  case 0
  show ?case by simp
next
  case (Suc k)
  then show ?case by simp
qed

lemma step_empty: "normpath_step k acc [] = acc"
  by (simp add: normpath_step_def)

lemma step_components:
  assumes "\<forall>a \<in> set acc. component a" "sep \<notin> set c"
  shows "\<forall>a \<in> set (normpath_step k acc c). component a"
proof -
  have "set (butlast acc) \<subseteq> set acc" by (auto dest: in_set_butlastD)
  with assms show ?thesis
    unfolding normpath_step_def by (auto simp: component_def)
qed

lemma foldl_step_components:
  assumes "\<forall>c \<in> set cs. sep \<notin> set c" "\<forall>a \<in> set acc. component a"
  shows "\<forall>a \<in> set (foldl (normpath_step k) acc cs). component a"
  using assms
proof (induction cs arbitrary: acc)
  case Nil then show ?case by simp
next
  case (Cons c cs)
  then have "\<forall>a \<in> set (normpath_step k acc c). component a"
    by (intro step_components) simp_all
  with Cons show ?case by simp
qed

lemma filter_split_join:
  assumes "\<forall>x \<in> set nc. component x"
  shows "filter (\<lambda>x. x \<noteq> []) (str_split (str_join [sep] nc) sep) = nc"
proof (cases "nc = []")
  case True then show ?thesis by simp
next
  case False
  with assms have "str_split (str_join [sep] nc) sep = nc"
    by (intro str_split_join) (simp_all add: component_def)
  moreover have "filter (\<lambda>x. x \<noteq> []) nc = nc"
    using assms by (intro filter_True) (simp add: component_def)
  ultimately show ?thesis by simp
qed

lemma normpath_abs:
  assumes "isabs P"
  shows "filter (\<lambda>x. x \<noteq> []) (str_split (normpath P) sep) =
         foldl (normpath_step (Suc 0)) [] (str_split P sep)"
proof -
  define k where "k = (if prefix [sep, sep] P \<and> \<not> prefix [sep, sep, sep] P then 2 else (1::nat))"
  define nc where "nc = foldl (normpath_step k) [] (str_split P sep)"
  have k: "k \<noteq> 0" by (simp add: k_def)
  from assms have pre: "prefix [sep] P" and ne: "P \<noteq> []" by (auto simp: isabs_def)
  have "normpath P = (let path = replicate k sep @ str_join [sep] nc in if path = [] then ''.'' else path)"
    using ne pre k unfolding normpath_def Let_def nc_def k_def by simp
  also have "\<dots> = replicate k sep @ str_join [sep] nc" using k by (simp add: Let_def)
  finally have n: "normpath P = replicate k sep @ str_join [sep] nc" .
  have comp: "\<forall>x \<in> set nc. component x"
    unfolding nc_def by (intro foldl_step_components) (auto dest: str_split_free)
  have "filter (\<lambda>x. x \<noteq> []) (str_split (normpath P) sep) =
        filter (\<lambda>x. x \<noteq> []) (str_split (str_join [sep] nc) sep)"
    unfolding n split_replicate by simp
  also have "\<dots> = nc" using comp by (rule filter_split_join)
  also have "\<dots> = foldl (normpath_step (Suc 0)) [] (str_split P sep)"
    unfolding nc_def using k by (rule foldl_step_abs)
  finally show ?thesis .
qed

lemma foldl_step_addsep:
  assumes "subs \<noteq> []" "\<forall>x \<in> set subs. clean x"
  shows "foldl (normpath_step k) [] (str_split (addsep R @ str_join [sep] subs) sep) =
         foldl (normpath_step k) [] (str_split R sep) @ subs"
proof -
  have free: "\<forall>x \<in> set subs. sep \<notin> set x" using assms(2) by (simp add: clean_def component_def)
  show ?thesis
  proof (cases "R = [] \<or> last R = sep")
    case False
    then have "addsep R @ str_join [sep] subs = R @ sep # str_join [sep] subs"
      by (simp add: addsep_def)
    then show ?thesis
      using assms free by (simp add: str_split_dir_append foldl_step_clean)
  next
    case True
    show ?thesis
    proof (cases "R = []")
      case True
      with assms free show ?thesis
        by (simp add: addsep_def str_split_join foldl_step_clean step_empty)
    next
      case False
      with True obtain R0 where R: "R = R0 @ [sep]" by (metis append_butlast_last_id)
      then have "addsep R @ str_join [sep] subs = R0 @ sep # str_join [sep] subs"
        by (simp add: addsep_def)
      then show ?thesis
        using assms free unfolding R
        by (simp add: str_split_dir_append str_split_snoc_sep foldl_step_clean step_empty)
    qed
  qed
qed

lemma rstrip_snoc_sep:
  assumes "J \<noteq> []" "last J \<noteq> sep"
  shows "rstrip (J @ [sep]) sep = J"
proof -
  from assms obtain m where m: "rev J = last J # m"
    by (cases "rev J") (auto simp: last_rev hd_rev dest: arg_cong [where f = hd])
  have "rstrip (J @ [sep]) sep = rev (dropWhile (\<lambda>d. d = sep) (rev J))"
    by (simp add: rstrip_def)
  also have "\<dots> = rev (rev J)" using assms(2) by (subst m, simp) (simp add: m)
  finally show ?thesis by simp
qed

lemma dirname_join:
  assumes "J \<noteq> []" "last J \<noteq> sep" "sep \<notin> set fn"
  shows "dirname (J @ sep # fn) = J"
proof -
  have h: "take (nat (rfind (J @ sep # fn) sep + 1)) (J @ sep # fn) = J @ [sep]"
    unfolding take_rfind using head_append [of fn "J @ [sep]"] assms(3) by simp
  have "J @ [sep] \<noteq> replicate (length (J @ [sep])) sep"
  proof
    assume "J @ [sep] = replicate (length (J @ [sep])) sep"
    then have "set (J @ [sep]) \<subseteq> {sep}" by (metis set_replicate_conv_if empty_subsetI subset_refl)
    moreover have "last J \<in> set (J @ [sep])" using assms(1) by simp
    ultimately show False using assms(2) by blast
  qed
  then have cond: "J @ [sep] \<noteq> [] \<and> J @ [sep] \<noteq> replicate (length (J @ [sep])) sep"
    by blast
  have "dirname (J @ sep # fn) =
      (if J @ [sep] \<noteq> [] \<and> J @ [sep] \<noteq> replicate (length (J @ [sep])) sep
       then rstrip (J @ [sep]) sep else J @ [sep])"
    by (simp only: dirname_def Let_def h)
  also have "\<dots> = rstrip (J @ [sep]) sep" using cond by (rule if_P)
  also have "\<dots> = J" using assms(1,2) by (rule rstrip_snoc_sep)
  finally show ?thesis .
qed

lemma basename_join:
  assumes "sep \<notin> set fn"
  shows "basename (J @ sep # fn) = fn"
  using basename_append [of fn "J @ [sep]"] assms by simp

lemma addsep_hd: "t \<noteq> [] \<Longrightarrow> addsep t \<noteq> [] \<and> hd (addsep t) = hd t"
  by (simp add: addsep_def)

lemma addsep_append: "t \<noteq> [] \<Longrightarrow> addsep (a @ t) = a @ addsep t"
  by (simp add: addsep_def)

lemma isabs_iff: "isabs p \<longleftrightarrow> p \<noteq> [] \<and> hd p = sep"
  by (simp add: isabs_def prefix_sep_iff)

lemma abspath_pair:
  assumes cwd: "isabs cwd" and root: "root \<noteq> []"
    and sub: "sub \<noteq> []" "hd sub \<noteq> sep"
  shows "\<exists>R. isabs R \<and> abspath cwd root = normpath R \<and>
           abspath cwd (addsep root @ sub) = normpath (addsep R @ sub)"
proof (cases "isabs root")
  case True
  then have "isabs (addsep root @ sub)" using addsep_hd [OF root] by (simp add: isabs_iff)
  with True show ?thesis by (auto simp: abspath_def)
next
  case False
  then have nr: "\<not> prefix [sep] root" by (simp add: isabs_def)
  have nj: "\<not> isabs (addsep root @ sub)"
    using False addsep_hd [OF root] root by (simp add: isabs_iff)
  then have nj': "\<not> prefix [sep] (addsep root @ sub)" by (simp add: isabs_def)
  let ?R = "addsep cwd @ root"
  have c: "cwd \<noteq> []" "hd cwd = sep" using cwd by (simp_all add: isabs_iff)
  have "isabs ?R" using addsep_hd [OF c(1)] c by (simp add: isabs_iff)
  moreover have "abspath cwd root = normpath ?R"
    using False nr by (simp add: abspath_def join_addsep)
  moreover have "abspath cwd (addsep root @ sub) = normpath (addsep ?R @ sub)"
    using nj nj' root by (simp add: abspath_def join_addsep addsep_append)
  ultimately show ?thesis by blast
qed

lemma relpath_subdir:
  assumes cwd: "isabs cwd" and root: "root \<noteq> []"
    and subs: "subs \<noteq> []" "\<forall>s \<in> set subs. clean s"
  shows "relpath cwd (addsep root @ str_join [sep] subs) root = Inr (str_join [sep] subs)"
proof -
  let ?sub = "str_join [sep] subs"
  have comps: "\<forall>s \<in> set subs. component s" using subs(2) by (simp add: clean_def)
  from str_join_ends [OF subs(1) comps]
  have sub: "?sub \<noteq> []" "hd ?sub \<noteq> sep" "last ?sub \<noteq> sep" by simp_all
  from abspath_pair [OF cwd root sub(1,2)] obtain R where R: "isabs R"
    and a1: "abspath cwd root = normpath R"
    and a2: "abspath cwd (addsep root @ ?sub) = normpath (addsep R @ ?sub)" by blast
  have R': "isabs (addsep R @ ?sub)"
    using R addsep_hd [of R] by (simp add: isabs_iff)
  define sl where "sl = filter (\<lambda>x. x \<noteq> []) (str_split (abspath cwd root) sep)"
  define pl where "pl = filter (\<lambda>x. x \<noteq> []) (str_split (abspath cwd (addsep root @ ?sub)) sep)"
  define rl where
    "rl = replicate (length sl - length (commonprefix sl pl)) ''..'' @
          drop (length (commonprefix sl pl)) pl"
  have sl: "sl = foldl (normpath_step (Suc 0)) [] (str_split R sep)"
    unfolding sl_def a1 using R by (rule normpath_abs)
  have "pl = foldl (normpath_step (Suc 0)) [] (str_split (addsep R @ ?sub) sep)"
    unfolding pl_def a2 using R' by (rule normpath_abs)
  also have "\<dots> = sl @ subs" unfolding sl using subs by (rule foldl_step_addsep)
  finally have pl: "pl = sl @ subs" .
  have rl: "rl = subs" unfolding rl_def pl by (simp add: commonprefix_append)
  have ne: "addsep root @ ?sub \<noteq> []" using sub(1) by simp
  have "relpath cwd (addsep root @ ?sub) root = (if rl = [] then Inr ''.'' else Inr (join_list rl))"
    unfolding relpath_def Let_def rl_def sl_def pl_def using ne by (rule if_not_P)
  also have "\<dots> = Inr (join_list subs)" using subs(1) by (simp add: rl)
  also have "join_list subs = ?sub" using subs(1) comps by (rule join_list_str_join)
  finally show ?thesis .
qed

lemma rfind_absent: "c \<notin> set p \<Longrightarrow> rfind p c = - 1"
  by (simp add: rfind_def)

lemma rfind_last:
  assumes "c \<notin> set ext"
  shows "rfind (name @ c # ext) c = int (length name)"
proof -
  have "takeWhile (\<lambda>d. d \<noteq> c) (rev ext @ c # rev name) = rev ext"
    using assms by (auto simp: takeWhile_append)
  then show ?thesis by (simp add: rfind_def)
qed

lemma splitext_ext:
  assumes "sep \<notin> set (name @ CHR ''.'' # ext)" and "CHR ''.'' \<notin> set ext"
    and "\<exists>c \<in> set name. c \<noteq> CHR ''.''"
  shows "splitext (name @ CHR ''.'' # ext) = (name, CHR ''.'' # ext)"
proof -
  let ?fn = "name @ CHR ''.'' # ext"
  have s: "rfind ?fn sep = - 1" using assms(1) by (rule rfind_absent)
  have d: "rfind ?fn (CHR ''.'') = int (length name)" using assms(2) by (rule rfind_last)
  from assms(3) obtain i where i: "i < length name" "name ! i \<noteq> CHR ''.''"
    by (auto simp: in_set_conv_nth)
  then have "?fn ! i \<noteq> CHR ''.''" by (simp add: nth_append)
  with i(1) have ex: "list_ex (\<lambda>k. ?fn ! k \<noteq> CHR ''.'') [nat (- 1 + 1)..<nat (int (length name))]"
    unfolding list_ex_iff by (intro bexI [of _ i]) simp_all
  have "splitext ?fn =
      (if int (length name) > - 1 \<and>
          list_ex (\<lambda>k. ?fn ! k \<noteq> CHR ''.'') [nat (- 1 + 1)..<nat (int (length name))]
       then (take (nat (int (length name))) ?fn, drop (nat (int (length name))) ?fn)
       else (?fn, []))"
    by (simp only: splitext_def Let_def s d)
  also have "\<dots> = (take (nat (int (length name))) ?fn, drop (nat (int (length name))) ?fn)"
    using ex by (intro if_P) simp
  also have "\<dots> = (name, CHR ''.'' # ext)" by simp
  finally show ?thesis .
qed

lemma output_path_basename:
  assumes "output_path cwd root p out ks = Inr opath"
  shows "basename opath = fst (splitext (basename p)) @ ''.png''"
proof -
  from assms obtain t where "opath = out_path_of t p"
    by (auto simp: output_path_def split: sum.splits)
  then show ?thesis by (simp add: basename_out_path_of)
qed

lemma in_path_shape:
  assumes root: "root \<noteq> []" and subs: "subs \<noteq> []" "\<forall>s \<in> set subs. clean s"
    and fn: "component fn"
  shows "join (join root (str_join [sep] subs)) fn =
           (addsep root @ str_join [sep] subs) @ sep # fn"
    and "dirname (join (join root (str_join [sep] subs)) fn) = addsep root @ str_join [sep] subs"
    and "basename (join (join root (str_join [sep] subs)) fn) = fn"
proof -
  let ?sub = "str_join [sep] subs"
  have comps: "\<forall>s \<in> set subs. component s" using subs(2) by (simp add: clean_def)
  from str_join_ends [OF subs(1) comps]
  have sub: "?sub \<noteq> []" "hd ?sub \<noteq> sep" "last ?sub \<noteq> sep" by simp_all
  then have j1: "join root ?sub = addsep root @ ?sub"
    by (intro join_addsep) (simp add: prefix_sep_iff)
  have J: "addsep root @ ?sub \<noteq> []" "last (addsep root @ ?sub) \<noteq> sep" using sub by simp_all
  then have "join (addsep root @ ?sub) fn = (addsep root @ ?sub) @ [sep] @ fn"
    using fn by (rule join_component)
  then show eq: "join (join root ?sub) fn = (addsep root @ ?sub) @ sep # fn"
    by (simp add: j1)
  have f: "sep \<notin> set fn" using fn by (simp add: component_def)
  show "dirname (join (join root ?sub) fn) = addsep root @ ?sub"
    unfolding eq using J f by (rule dirname_join)
  show "basename (join (join root ?sub) fn) = fn"
    unfolding eq using f by (rule basename_join)
qed

section \<open>The example blur is monotone\<close>

lemma reflect_less: "0 < n \<Longrightarrow> reflect n i < n"
  by (auto simp: reflect_def)

lemma tap_bound: "tap a y x \<le> 255"
proof -
  have "unat w \<le> 255" for w :: u8
    using unsigned_less [of w, where ?'a = nat] by simp
  then show ?thesis by (simp add: tap_def Let_def)
qed

lemma tap_mono:
  assumes "grid_le a b" "a \<noteq> []"
  shows "tap a y x \<le> tap b y x"
proof -
  have l: "length a = length b" using assms(1) by (simp add: grid_le_def list_all2_lengthD)
  let ?yy = "reflect (length a) y"
  have yy: "?yy < length a" using assms(2) by (simp add: reflect_less)
  then have row: "list_all2 (\<le>) (a ! ?yy) (b ! ?yy)"
    using assms(1) by (simp add: grid_le_def list_all2_conv_all_nth)
  then have l2: "length (a ! ?yy) = length (b ! ?yy)" by (rule list_all2_lengthD)
  let ?xx = "reflect (length (a ! ?yy)) x"
  show ?thesis
  proof (cases "?xx < length (a ! ?yy)")
    case True
    with row have "a ! ?yy ! ?xx \<le> b ! ?yy ! ?xx" by (simp add: list_all2_conv_all_nth)
    then have "unat (a ! ?yy ! ?xx) \<le> unat (b ! ?yy ! ?xx)" by (simp add: word_le_nat_alt)
    with True show ?thesis by (simp add: tap_def Let_def l [symmetric] l2 [symmetric])
  next
    case False
    then show ?thesis by (simp add: tap_def Let_def l [symmetric] l2 [symmetric])
  qed
qed

lemma of_nat_u8_mono:
  assumes "m \<le> n" "n \<le> 255"
  shows "(of_nat m :: u8) \<le> of_nat n"
proof -
  have "unat (of_nat m :: u8) = m" "unat (of_nat n :: u8) = n"
    using assms by (simp_all add: unat_of_nat)
  with assms(1) show ?thesis by (simp add: word_le_nat_alt)
qed

lemma binomial3_mono:
  assumes "grid_le a b" "a \<noteq> []"
  shows "binomial3 k a y x \<le> binomial3 k b y x"
proof -
  define s where "s c = (\<lambda>dy dx. tap c (int y + dy) (int x + dx))" for c
  define total where "total c = s c (- 1) (- 1) + 2 * s c (- 1) 0 + s c (- 1) 1 +
      2 * s c 0 (- 1) + 4 * s c 0 0 + 2 * s c 0 1 +
      s c 1 (- 1) + 2 * s c 1 0 + s c 1 1 + 8" for c
  have le: "s a dy dx \<le> s b dy dx" for dy dx
    unfolding s_def using assms by (rule tap_mono)
  have b: "s b dy dx \<le> 255" for dy dx unfolding s_def by (rule tap_bound)
  have "total a \<le> total b"
    unfolding total_def
    using le [of "- 1" "- 1"] le [of "- 1" 0] le [of "- 1" 1] le [of 0 "- 1"] le [of 0 0]
      le [of 0 1] le [of 1 "- 1"] le [of 1 0] le [of 1 1]
    by linarith
  then have d: "total a div 16 \<le> total b div 16" by (rule div_le_mono)
  have "total b \<le> 16 * 255 + 8"
    unfolding total_def
    using b [of "- 1" "- 1"] b [of "- 1" 0] b [of "- 1" 1] b [of 0 "- 1"] b [of 0 0]
      b [of 0 1] b [of 1 "- 1"] b [of 1 0] b [of 1 1]
    by linarith
  then have "total b div 16 \<le> 255" by simp
  with d have "(of_nat (total a div 16) :: u8) \<le> of_nat (total b div 16)"
    by (rule of_nat_u8_mono)
  then show ?thesis by (simp add: binomial3_def Let_def total_def s_def)
qed

lemma binomial3_monotone: "gauss_monotone binomial3 k"
  unfolding gauss_monotone_def
proof (intro allI impI)
  fix a b :: "u8 grid"
  assume ab: "grid_le a b"
  then have l: "length a = length b" by (simp add: grid_le_def list_all2_lengthD)
  have rows: "length (a ! y) = length (b ! y)" if "y < length a" for y
    using ab that by (simp add: grid_le_def list_all2_conv_all_nth)
  have "binomial3 k a y x \<le> binomial3 k b y x" if "y < length a" for y x
    using ab that by (intro binomial3_mono) auto
  then show "grid_le (blur_plane binomial3 a k) (blur_plane binomial3 b k)"
    using l rows by (simp add: grid_le_def blur_plane_def list_all2_conv_all_nth)
qed

section \<open>The claims on the pixel masker\<close>

text \<open>
  C1. For every non-empty 3-channel image, with \<open>dilate = 0\<close> and \<open>feather = 0\<close>,
  \<open>remove_black_background_array\<close> returns an image of the same shape whose alpha at a
  pixel is 0 if and only if all three colour channel values of that pixel are at most
  \<open>threshold\<close>, and 255 if and only if at least one of them is above it.
\<close>

theorem threshold_alpha:
  assumes "np_size bgr \<noteq> 0"
  shows "\<exists>bgra. remove_black_background_array g (Some bgr) threshold 0 0 = Inr bgra \<and>
     map length bgra = map length bgr \<and>
     (\<forall>y<length bgr. \<forall>x<length (bgr ! y).
        case bgr ! y ! x of (b, g, r) \<Rightarrow>
          (alpha_channel bgra ! y ! x = 0 \<longleftrightarrow>
             uint b \<le> threshold \<and> uint g \<le> threshold \<and> uint r \<le> threshold) \<and>
          (alpha_channel bgra ! y ! x = 255 \<longleftrightarrow>
             \<not> (uint b \<le> threshold \<and> uint g \<le> threshold \<and> uint r \<le> threshold)))"
proof -
  have "cv2_accepts 0 0" by (simp add: cv2_accepts_def)
  from rbba_result [OF assms this, of g threshold] obtain bgra where
    r: "remove_black_background_array g (Some bgr) threshold 0 0 = Inr bgra"
    and sh: "map length bgra = map length bgr"
    and al: "alpha_channel bgra = inverted_mask bgr threshold 0"
    by auto
  have "\<forall>y<length bgr. \<forall>x<length (bgr ! y).
        case bgr ! y ! x of (b, g, r) \<Rightarrow>
          (alpha_channel bgra ! y ! x = 0 \<longleftrightarrow>
             uint b \<le> threshold \<and> uint g \<le> threshold \<and> uint r \<le> threshold) \<and>
          (alpha_channel bgra ! y ! x = 255 \<longleftrightarrow>
             \<not> (uint b \<le> threshold \<and> uint g \<le> threshold \<and> uint r \<le> threshold))"
    unfolding al by (auto simp: inverted_mask_0_nth split: prod.splits)
  with r sh show ?thesis by blast
qed

theorem threshold_alpha_witness:
  "np_size [[(0, 0, 0), (30, 5, 5)], [(20, 20, 20), (20, 21, 20)]] \<noteq> 0 \<and>
   (\<exists>bgra. remove_black_background_array binomial3
        (Some [[(0, 0, 0), (30, 5, 5)], [(20, 20, 20), (20, 21, 20)]]) 20 0 0 = Inr bgra \<and>
      alpha_channel bgra ! 0 ! 0 = 0 \<and> alpha_channel bgra ! 0 ! 1 = 255 \<and>
      alpha_channel bgra ! 1 ! 0 = 0 \<and> alpha_channel bgra ! 1 ! 1 = 255)"
proof -
  let ?bgr = "[[(0, 0, 0), (30, 5, 5)], [(20, 20, 20), (20, 21, 20)]] :: pixel_bgr grid"
  have h: "np_size ?bgr \<noteq> 0" by (simp add: np_size_def)
  from threshold_alpha [OF h, of binomial3 20] obtain bgra where
    r: "remove_black_background_array binomial3 (Some ?bgr) 20 0 0 = Inr bgra"
    and px: "\<forall>y<length ?bgr. \<forall>x<length (?bgr ! y).
        case ?bgr ! y ! x of (b, g, r) \<Rightarrow>
          (alpha_channel bgra ! y ! x = 0 \<longleftrightarrow> uint b \<le> 20 \<and> uint g \<le> 20 \<and> uint r \<le> 20) \<and>
          (alpha_channel bgra ! y ! x = 255 \<longleftrightarrow> \<not> (uint b \<le> 20 \<and> uint g \<le> 20 \<and> uint r \<le> 20))"
    by blast
  have "alpha_channel bgra ! 0 ! 0 = 0" using px [rule_format, of 0 0] by simp
  moreover have "alpha_channel bgra ! 0 ! 1 = 255" using px [rule_format, of 0 1] by simp
  moreover have "alpha_channel bgra ! 1 ! 0 = 0" using px [rule_format, of 1 0] by simp
  moreover have "alpha_channel bgra ! 1 ! 1 = 255" using px [rule_format, of 1 1] by simp
  ultimately show ?thesis using h r by blast
qed

text \<open>
  C2. For every non-empty 3-channel image and every threshold, feather and dilate, every
  result \<open>remove_black_background_array\<close> returns has as many rows as the input, each
  row as long as the input's, and its three colour channels are pixel for pixel those of
  the input. A result is returned exactly when OpenCV takes the arguments of the calls
  made (\<open>dilate\<close> when positive, \<open>feather\<close> when positive and odd, fit a C integer);
  otherwise the call raises.
\<close>

theorem colors_unchanged:
  assumes "np_size bgr \<noteq> 0"
  shows "(\<forall>bgra. remove_black_background_array g (Some bgr) threshold feather dilate = Inr bgra \<longrightarrow>
       length bgra = length bgr \<and> map length bgra = map length bgr \<and>
       color_channels bgra = bgr) \<and>
     ((\<exists>bgra. remove_black_background_array g (Some bgr) threshold feather dilate = Inr bgra) \<longleftrightarrow>
       cv2_accepts feather dilate)"
proof (rule conjI)
  show "\<forall>bgra. remove_black_background_array g (Some bgr) threshold feather dilate = Inr bgra \<longrightarrow>
       length bgra = length bgr \<and> map length bgra = map length bgr \<and>
       color_channels bgra = bgr"
  proof (intro allI impI)
    fix bgra
    assume "remove_black_background_array g (Some bgr) threshold feather dilate = Inr bgra"
    from rbba_alpha [OF assms this]
    have sh: "map length bgra = map length bgr" and c: "color_channels bgra = bgr" by simp_all
    from sh have "length bgra = length bgr" by (metis length_map)
    with sh c show "length bgra = length bgr \<and> map length bgra = map length bgr \<and>
       color_channels bgra = bgr" by simp
  qed
next
  show "(\<exists>bgra. remove_black_background_array g (Some bgr) threshold feather dilate = Inr bgra) \<longleftrightarrow>
       cv2_accepts feather dilate"
    using assms by (rule rbba_returns)
qed

theorem colors_unchanged_witness:
  "np_size example_image \<noteq> 0 \<and> cv2_accepts 3 1 \<and>
   remove_black_background_array binomial3 (Some example_image) 20 3 1 =
     Inr [[(0, 0, 0, 0), (10, 20, 5, 0), (20, 20, 20, 0), (200, 100, 50, 64),
           (255, 255, 255, 128)],
          [(1, 2, 3, 0), (0, 0, 0, 0), (5, 5, 5, 0), (90, 80, 70, 64), (21, 0, 0, 128)]] \<and>
   color_channels
     [[(0, 0, 0, 0), (10, 20, 5, 0), (20, 20, 20, 0), (200, 100, 50, 64), (255, 255, 255, 128)],
      [(1, 2, 3, 0), (0, 0, 0, 0), (5, 5, 5, 0), (90, 80, 70, 64), (21, 0, 0, 128)]] =
     example_image \<and>
   \<not> cv2_accepts 3 2147483648 \<and>
   (\<nexists>bgra. remove_black_background_array binomial3 (Some example_image) 20 3 2147483648 =
      Inr bgra)"
proof -
  let ?r = "[[(0, 0, 0, 0), (10, 20, 5, 0), (20, 20, 20, 0), (200, 100, 50, 64),
              (255, 255, 255, 128)],
             [(1, 2, 3, 0), (0, 0, 0, 0), (5, 5, 5, 0), (90, 80, 70, 64), (21, 0, 0, 128)]]
            :: pixel_bgra grid"
  have h: "np_size example_image \<noteq> 0" by code_simp
  have a: "cv2_accepts 3 1" by code_simp
  have r: "remove_black_background_array binomial3 (Some example_image) 20 3 1 = Inr ?r"
    by code_simp
  have n: "\<not> cv2_accepts 3 2147483648" by code_simp
  have c: "color_channels ?r = example_image"
    using colors_unchanged [OF h, of binomial3 20 3 1, THEN conjunct1, rule_format, OF r]
    by (rule conjunct2 [THEN conjunct2])
  have e: "\<nexists>bgra. remove_black_background_array binomial3 (Some example_image) 20 3 2147483648 =
      Inr bgra"
    using colors_unchanged [OF h, of binomial3 20 3 2147483648, THEN conjunct2] n by blast
  show ?thesis by (intro conjI) (fact h a r c n e)+
qed

text \<open>
  C3. For every non-empty 3-channel image, fixed threshold and feather, and dilate counts
  \<open>d1 \<le> d2\<close>: whenever both runs return a result, every pixel that is fully transparent
  (alpha 0) in the result for \<open>d1\<close> is fully transparent in the result for \<open>d2\<close>; and
  both runs return whenever OpenCV takes the arguments of the run for \<open>d2\<close>. Where
  feathering is active, the blur of the library is taken to be monotone.
\<close>

theorem dilate_monotone:
  assumes "np_size bgr \<noteq> 0" and "d1 \<le> d2"
    and "0 < feather \<and> odd feather \<longrightarrow> gauss_monotone g feather"
  shows "(\<forall>r1 r2.
       remove_black_background_array g (Some bgr) threshold feather d1 = Inr r1 \<and>
       remove_black_background_array g (Some bgr) threshold feather d2 = Inr r2 \<longrightarrow>
       set (transparent r1) \<subseteq> set (transparent r2)) \<and>
     (cv2_accepts feather d2 \<longrightarrow>
       (\<exists>r1 r2.
          remove_black_background_array g (Some bgr) threshold feather d1 = Inr r1 \<and>
          remove_black_background_array g (Some bgr) threshold feather d2 = Inr r2))"
proof (intro conjI allI impI)
  fix r1 r2
  assume res: "remove_black_background_array g (Some bgr) threshold feather d1 = Inr r1 \<and>
       remove_black_background_array g (Some bgr) threshold feather d2 = Inr r2"
  let ?f = "\<lambda>d. if 0 < feather \<and> odd feather
             then blur_plane g (inverted_mask bgr threshold d) feather
             else inverted_mask bgr threshold d"
  from res rbba_alpha [OF assms(1)] have a1: "alpha_channel r1 = ?f d1"
    and a2: "alpha_channel r2 = ?f d2" by blast+
  have inv: "grid_le (inverted_mask bgr threshold d2) (inverted_mask bgr threshold d1)"
    using assms(2) by (rule inverted_mask_antimono)
  have le: "grid_le (alpha_channel r2) (alpha_channel r1)"
  proof (cases "0 < feather \<and> odd feather")
    case True
    with assms(3) have "gauss_monotone g feather" by simp
    with inv show ?thesis
      unfolding a1 a2 if_P [OF True] by (simp add: gauss_monotone_def)
  next
    case False
    from inv show ?thesis
      unfolding a1 a2 if_not_P [OF False] .
  qed
  show "set (transparent r1) \<subseteq> set (transparent r2)"
    unfolding set_transparent using grid_le_zero [OF le] by auto
next
  assume acc: "cv2_accepts feather d2"
  with assms(2) have acc1: "cv2_accepts feather d1"
    by (auto simp: cv2_accepts_def fits_c_int_def)
  from rbba_result [OF assms(1) acc1, of g threshold] rbba_result [OF assms(1) acc, of g threshold]
  show "\<exists>r1 r2.
          remove_black_background_array g (Some bgr) threshold feather d1 = Inr r1 \<and>
          remove_black_background_array g (Some bgr) threshold feather d2 = Inr r2"
    by blast
qed

theorem dilate_monotone_witness:
  "np_size example_image \<noteq> 0 \<and> (0::int) \<le> 1 \<and> gauss_monotone binomial3 3 \<and> cv2_accepts 3 1 \<and>
   (\<exists>r1 r2.
      remove_black_background_array binomial3 (Some example_image) 20 3 0 = Inr r1 \<and>
      remove_black_background_array binomial3 (Some example_image) 20 3 1 = Inr r2 \<and>
      transparent r1 = [(0, 0), (0, 1), (1, 0), (1, 1)] \<and>
      transparent r2 = [(0, 0), (0, 1), (0, 2), (1, 0), (1, 1), (1, 2)] \<and>
      set (transparent r1) \<subseteq> set (transparent r2))"
proof -
  let ?r1 = "[[(0, 0, 0, 0), (10, 20, 5, 0), (20, 20, 20, 64), (200, 100, 50, 191),
               (255, 255, 255, 255)],
              [(1, 2, 3, 0), (0, 0, 0, 0), (5, 5, 5, 64), (90, 80, 70, 191), (21, 0, 0, 255)]]
             :: pixel_bgra grid"
  let ?r2 = "[[(0, 0, 0, 0), (10, 20, 5, 0), (20, 20, 20, 0), (200, 100, 50, 64),
               (255, 255, 255, 128)],
              [(1, 2, 3, 0), (0, 0, 0, 0), (5, 5, 5, 0), (90, 80, 70, 64), (21, 0, 0, 128)]]
             :: pixel_bgra grid"
  have h: "np_size example_image \<noteq> 0" by code_simp
  have d: "(0::int) \<le> 1" by simp
  have m: "gauss_monotone binomial3 3" by (rule binomial3_monotone)
  then have m': "0 < (3::int) \<and> odd (3::int) \<longrightarrow> gauss_monotone binomial3 3" by simp
  have a: "cv2_accepts 3 1" by code_simp
  have e1: "remove_black_background_array binomial3 (Some example_image) 20 3 0 = Inr ?r1"
    by code_simp
  have e2: "remove_black_background_array binomial3 (Some example_image) 20 3 1 = Inr ?r2"
    by code_simp
  have t1: "transparent ?r1 = [(0, 0), (0, 1), (1, 0), (1, 1)]" by code_simp
  have t2: "transparent ?r2 = [(0, 0), (0, 1), (0, 2), (1, 0), (1, 1), (1, 2)]" by code_simp
  have sub: "set (transparent ?r1) \<subseteq> set (transparent ?r2)"
    using dilate_monotone [OF h d m', of 20, THEN conjunct1, rule_format, OF conjI [OF e1 e2]] .
  have "\<exists>r1 r2.
      remove_black_background_array binomial3 (Some example_image) 20 3 0 = Inr r1 \<and>
      remove_black_background_array binomial3 (Some example_image) 20 3 1 = Inr r2 \<and>
      transparent r1 = [(0, 0), (0, 1), (1, 0), (1, 1)] \<and>
      transparent r2 = [(0, 0), (0, 1), (0, 2), (1, 0), (1, 1), (1, 2)] \<and>
      set (transparent r1) \<subseteq> set (transparent r2)"
    by (intro exI conjI) (fact e1 e2 t1 t2 sub)+
  with h d m a show ?thesis by (intro conjI)
qed

text \<open>
  C4. For every non-empty 3-channel image, the alpha channel of a returned result is the
  Gaussian blur of the inverted (possibly dilated) mask exactly when \<open>feather\<close> is
  positive and odd; otherwise (zero, negative or even \<open>feather\<close>) it is the inverted mask
  itself, and that mask holds only the values 0 and 255. A result is returned exactly when
  OpenCV takes the arguments of the calls made.
\<close>

theorem feather_gate:
  assumes "np_size bgr \<noteq> 0"
  shows "(\<forall>bgra. remove_black_background_array g (Some bgr) threshold feather dilate = Inr bgra \<longrightarrow>
       alpha_channel bgra =
         (if 0 < feather \<and> odd feather
          then blur_plane g (inverted_mask bgr threshold dilate) feather
          else inverted_mask bgr threshold dilate)) \<and>
     binary (inverted_mask bgr threshold dilate) \<and>
     ((\<exists>bgra. remove_black_background_array g (Some bgr) threshold feather dilate = Inr bgra) \<longleftrightarrow>
       cv2_accepts feather dilate)"
proof (intro conjI)
  show "\<forall>bgra. remove_black_background_array g (Some bgr) threshold feather dilate = Inr bgra \<longrightarrow>
       alpha_channel bgra =
         (if 0 < feather \<and> odd feather
          then blur_plane g (inverted_mask bgr threshold dilate) feather
          else inverted_mask bgr threshold dilate)"
    using rbba_alpha [OF assms] by blast
  show "binary (inverted_mask bgr threshold dilate)" by (rule inverted_mask_binary)
  show "(\<exists>bgra. remove_black_background_array g (Some bgr) threshold feather dilate = Inr bgra) \<longleftrightarrow>
       cv2_accepts feather dilate"
    using assms by (rule rbba_returns)
qed

theorem feather_gate_witness:
  "np_size example_image \<noteq> 0 \<and>
   inverted_mask example_image 20 0 = [[0, 0, 0, 255, 255], [0, 0, 0, 255, 255]] \<and>
   blur_plane binomial3 [[0, 0, 0, 255, 255], [0, 0, 0, 255, 255]] 3 =
     [[0, 0, 64, 191, 255], [0, 0, 64, 191, 255]] \<and>
   (\<exists>bgra. remove_black_background_array binomial3 (Some example_image) 20 3 0 = Inr bgra \<and>
      alpha_channel bgra = [[0, 0, 64, 191, 255], [0, 0, 64, 191, 255]]) \<and>
   (\<exists>bgra. remove_black_background_array binomial3 (Some example_image) 20 4 0 = Inr bgra \<and>
      alpha_channel bgra = [[0, 0, 0, 255, 255], [0, 0, 0, 255, 255]]) \<and>
   (\<nexists>bgra. remove_black_background_array binomial3 (Some example_image) 20 2147483649 0 =
      Inr bgra)"
proof -
  have h: "np_size example_image \<noteq> 0" by code_simp
  have i: "inverted_mask example_image 20 0 = [[0, 0, 0, 255, 255], [0, 0, 0, 255, 255]]"
    by code_simp
  have b: "blur_plane binomial3 [[0, 0, 0, 255, 255], [0, 0, 0, 255, 255]] 3 =
     [[0, 0, 64, 191, 255], [0, 0, 64, 191, 255]]"
    by code_simp
  have a3: "cv2_accepts 3 0" and a4: "cv2_accepts 4 0" and n: "\<not> cv2_accepts 2147483649 0"
    by code_simp+
  note g3 = feather_gate [OF h, of binomial3 20 3 0]
  note g4 = feather_gate [OF h, of binomial3 20 4 0]
  note gn = feather_gate [OF h, of binomial3 20 2147483649 0]
  from g3 a3 obtain r3 where
    r3: "remove_black_background_array binomial3 (Some example_image) 20 3 0 = Inr r3" by blast
  with g3 have "alpha_channel r3 = blur_plane binomial3 (inverted_mask example_image 20 0) 3"
    by simp
  then have e3: "alpha_channel r3 = [[0, 0, 64, 191, 255], [0, 0, 64, 191, 255]]"
    unfolding i b .
  from g4 a4 obtain r4 where
    r4: "remove_black_background_array binomial3 (Some example_image) 20 4 0 = Inr r4" by blast
  with g4 have "alpha_channel r4 = inverted_mask example_image 20 0" by simp
  then have e4: "alpha_channel r4 = [[0, 0, 0, 255, 255], [0, 0, 0, 255, 255]]"
    unfolding i .
  from gn n have en: "\<nexists>bgra.
      remove_black_background_array binomial3 (Some example_image) 20 2147483649 0 = Inr bgra"
    by blast
  from h i b r3 e3 r4 e4 en show ?thesis by blast
qed

section \<open>The claims on the file processor and the batch driver\<close>

text \<open>
  C6. The claim: every exception raised while a file is processed is caught inside
  \<open>process_one\<close> and becomes an \<open>ERROR\<close> outcome, so that no exception aborts the batch.
  The \<open>try\<close> of \<open>process_one\<close> covers the masking and the write only: when
  \<open>os.makedirs\<close> raises for the target directory, \<open>process_one\<close> propagates the exception,
  and \<open>main\<close> ends with it instead of a summary.
\<close>

theorem makedirs_failure_propagates:
  "process_one blocked_env ''in'' ''in/sub/img.jpg'' ''out'' 20 3 1 True =
     ([Makedirs ''out/sub''], Inl (OSError ''[Errno 17] File exists: out/sub'')) \<and>
   snd (main blocked_env (example_args True)) = Inl (OSError ''[Errno 17] File exists: out/sub'')"
  by code_simp

text \<open>
  C7, as the code has it. The claim that a batch without eligible files returns with an
  all-zero summary fails: \<open>main\<close> returns at its guard before any summary is computed,
  and prints the notice that no images were found; no line \<open>Summary: 0 OK, 0 errors, 0
  skipped.\<close> is printed.
\<close>

theorem empty_batch_no_summary:
  "isdir empty_env (args_input (example_args False)) \<and>
   list_images empty_env (args_input (example_args False)) = [] \<and>
   main empty_env (example_args False) =
     ([Makedirs ''out'', Print ''No images found in the input folder.''], Inr 0) \<and>
   Print (CHR 0x0A # ''Summary: 0 OK, 0 errors, 0 skipped.'') \<notin>
     set (fst (main empty_env (example_args False)))"
  by code_simp

text \<open>
  C7, amended. If the input directory exists, the output directory can be created and
  no eligible image file is found, \<open>main\<close> returns exit status 0 without raising. Its only
  effects are the creation of the output directory and the notice that no images were
  found: it prints no summary line and writes no image.
\<close>

theorem empty_batch:
  assumes "isdir w (args_input a)" and "makedirs w (args_output a) = None"
    and "list_images w (args_input a) = []"
  shows "main w a =
      ([Makedirs (args_output a), Print ''No images found in the input folder.''], Inr 0) \<and>
    (\<forall>s. Print (CHR 0x0A # ''Summary: '' @ s) \<notin> set (fst (main w a))) \<and>
    (\<forall>p img. Imwrite p img \<notin> set (fst (main w a)))"
  using assms by (simp add: main_def)

theorem empty_batch_witness:
  "isdir empty_env (args_input (example_args False)) \<and>
   makedirs empty_env (args_output (example_args False)) = None \<and>
   list_images empty_env (args_input (example_args False)) = [] \<and>
   main empty_env (example_args False) =
      ([Makedirs ''out'', Print ''No images found in the input folder.''], Inr 0)"
proof -
  have h1: "isdir empty_env (args_input (example_args False))" by code_simp
  have h2: "makedirs empty_env (args_output (example_args False)) = None" by code_simp
  have h3: "list_images empty_env (args_input (example_args False)) = []" by code_simp
  have "args_output (example_args False) = ''out''" by (simp add: example_args_def)
  with empty_batch [OF h1 h2 h3] h1 h2 h3 show ?thesis by simp
qed

text \<open>
  C8. When the target directory has been computed and created and \<open>cv2.imread\<close> returns
  no image, \<open>process_one\<close> returns the outcome \<open>SKIP (unreadable): <input path>\<close>, which is
  not an \<open>ERROR\<close> outcome, and it attempts no write.
\<close>

theorem unreadable_skipped:
  assumes "target_dir_of (getcwd w) root in_path out ks = Inr target_dir"
    and "makedirs w target_dir = None"
    and "imread w in_path = None"
  shows "\<exists>effs r. process_one w root in_path out th fe di ks = (effs, Inr r) \<and>
      r = ''SKIP (unreadable): '' @ in_path \<and>
      prefix ''SKIP'' r \<and> \<not> prefix ''ERROR'' r \<and> \<not> prefix ''OK'' r \<and>
      effs = [Makedirs target_dir] \<and> (\<forall>p img. Imwrite p img \<notin> set effs)"
  using assms by (simp add: process_one_def)

theorem unreadable_skipped_witness:
  "target_dir_of (getcwd example_env) ''in'' ''in/a.PNG'' ''out'' True = Inr ''out/.'' \<and>
   makedirs example_env ''out/.'' = None \<and>
   imread example_env ''in/a.PNG'' = None \<and>
   process_one example_env ''in'' ''in/a.PNG'' ''out'' 20 3 1 True =
     ([Makedirs ''out/.''], Inr ''SKIP (unreadable): in/a.PNG'')"
proof -
  have h1: "target_dir_of (getcwd example_env) ''in'' ''in/a.PNG'' ''out'' True = Inr ''out/.''"
    by code_simp
  have h2: "makedirs example_env ''out/.'' = None" by code_simp
  have h3: "imread example_env ''in/a.PNG'' = None" by code_simp
  from unreadable_skipped [OF h1 h2 h3, of 20 3 1] h1 h2 h3 show ?thesis by auto
qed

text \<open>
  C10. Every outcome string \<open>process_one\<close> returns begins with exactly one of \<open>OK\<close>,
  \<open>ERROR\<close> and \<open>SKIP\<close>. So, when every call returns, the three counters over the collected
  outcomes, in whatever order they completed, add up to the number of files; and a run of
  \<open>main\<close> on a non-empty list of files that ends with an exit status ends with status 0
  and a summary line whose three counts add up to the number of eligible files.
\<close>

theorem outcomes_partition:
  "(\<forall>effs r. process_one w root in_path out th fe di ks = (effs, Inr r) \<longrightarrow> one_prefix r) \<and>
   (\<forall>results rs.
      collect (map (\<lambda>f. snd (process_one w root f out th fe di ks)) files) = Inr results \<and>
      mset rs = mset results \<longrightarrow>
      (case summary rs of (ok, err, skip) \<Rightarrow> ok + err + skip) = length files) \<and>
   (\<forall>effs code.
      isdir w (args_input a) \<and> list_images w (args_input a) \<noteq> [] \<and>
      main w a = (effs, Inr code) \<longrightarrow>
      code = 0 \<and>
      (\<exists>ok err skip pre.
         effs = pre @ [Print (CHR 0x0A # ''Summary: '' @ str_nat ok @ '' OK, '' @ str_nat err @
                               '' errors, '' @ str_nat skip @ '' skipped.'')] \<and>
         ok + err + skip = length (list_images w (args_input a))))"
proof (intro conjI allI impI)
  fix effs r
  assume "process_one w root in_path out th fe di ks = (effs, Inr r)"
  then show "one_prefix r" by (rule process_one_one_prefix)
next
  fix results rs
  assume a: "collect (map (\<lambda>f. snd (process_one w root f out th fe di ks)) files) = Inr results \<and>
      mset rs = mset results"
  then have "length results = length files" "\<forall>r \<in> set results. one_prefix r"
    using collect_process_one by blast+
  moreover from a have "set rs = set results" "length rs = length results"
    by (metis set_mset_mset, metis size_mset)
  ultimately show "(case summary rs of (ok, err, skip) \<Rightarrow> ok + err + skip) = length files"
    using summary_total [of rs] by simp
next
  fix effs code
  assume "isdir w (args_input a) \<and> list_images w (args_input a) \<noteq> [] \<and>
      main w a = (effs, Inr code)"
  then have "code = 0 \<and> (\<exists>ok err skip pre.
         effs = pre @ [Print (CHR 0x0A # ''Summary: '' @ str_nat ok @ '' OK, '' @ str_nat err @
                               '' errors, '' @ str_nat skip @ '' skipped.'')] \<and>
         ok + err + skip = length (list_images w (args_input a)))"
    using main_summary [of w a effs code] by blast
  then show "code = 0"
    and "\<exists>ok err skip pre.
         effs = pre @ [Print (CHR 0x0A # ''Summary: '' @ str_nat ok @ '' OK, '' @ str_nat err @
                               '' errors, '' @ str_nat skip @ '' skipped.'')] \<and>
         ok + err + skip = length (list_images w (args_input a))"
    by blast+
qed

theorem outcomes_partition_witness:
  "process_one example_env ''in'' ''in/a.PNG'' ''out'' 20 3 1 False =
     ([Makedirs ''out/''], Inr ''SKIP (unreadable): in/a.PNG'') \<and>
   one_prefix ''SKIP (unreadable): in/a.PNG'' \<and>
   collect (map (\<lambda>f. snd (process_one example_env ''in'' f ''out'' 20 3 1 False))
      [''in/a.jpg'', ''in/a.PNG'', ''in/sub/img.jpg'']) =
     Inr [''OK: out/a.png'', ''SKIP (unreadable): in/a.PNG'', ''OK: out/img.png''] \<and>
   (case summary [''SKIP (unreadable): in/a.PNG'', ''OK: out/img.png'', ''OK: out/a.png''] of
      (ok, err, skip) \<Rightarrow> ok + err + skip) = length [''in/a.jpg'', ''in/a.PNG'', ''in/sub/img.jpg''] \<and>
   isdir example_env (args_input (example_args False)) \<and>
   list_images example_env (args_input (example_args False)) \<noteq> [] \<and>
   snd (main example_env (example_args False)) = Inr 0 \<and>
   (\<exists>ok err skip pre.
      fst (main example_env (example_args False)) =
        pre @ [Print (CHR 0x0A # ''Summary: '' @ str_nat ok @ '' OK, '' @ str_nat err @
                      '' errors, '' @ str_nat skip @ '' skipped.'')] \<and>
      ok + err + skip = length (list_images example_env (args_input (example_args False))))"
proof -
  let ?files = "[''in/a.jpg'', ''in/a.PNG'', ''in/sub/img.jpg'']"
  let ?res = "[''OK: out/a.png'', ''SKIP (unreadable): in/a.PNG'', ''OK: out/img.png'']"
  let ?rs = "[''SKIP (unreadable): in/a.PNG'', ''OK: out/img.png'', ''OK: out/a.png'']"
  note parts = outcomes_partition [of example_env "''in''" "''in/a.PNG''" "''out''" 20 3 1 False
      "?files" "example_args False"]
  have p: "process_one example_env ''in'' ''in/a.PNG'' ''out'' 20 3 1 False =
     ([Makedirs ''out/''], Inr ''SKIP (unreadable): in/a.PNG'')"
    by code_simp
  have c: "collect (map (\<lambda>f. snd (process_one example_env ''in'' f ''out'' 20 3 1 False)) ?files) =
     Inr ?res"
    by code_simp
  have m: "mset ?rs = mset ?res" by simp
  have d: "isdir example_env (args_input (example_args False))" by code_simp
  have l: "list_images example_env (args_input (example_args False)) \<noteq> []" by code_simp
  have e: "snd (main example_env (example_args False)) = Inr 0" by code_simp
  then have e': "main example_env (example_args False) =
      (fst (main example_env (example_args False)), Inr 0)"
    by (metis prod.collapse)
  from parts p have 1: "one_prefix ''SKIP (unreadable): in/a.PNG''" by blast
  from parts c m have 2: "(case summary ?rs of (ok, err, skip) \<Rightarrow> ok + err + skip) = length ?files"
    by blast
  from parts d l e' have 3: "\<exists>ok err skip pre.
      fst (main example_env (example_args False)) =
        pre @ [Print (CHR 0x0A # ''Summary: '' @ str_nat ok @ '' OK, '' @ str_nat err @
                      '' errors, '' @ str_nat skip @ '' skipped.'')] \<and>
      ok + err + skip = length (list_images example_env (args_input (example_args False)))"
    by blast
  from p 1 c 2 d l e 3 show ?thesis by blast
qed

section \<open>The claims on output paths\<close>

text \<open>
  C5, as the code has it. The claim that distinct eligible inputs always get distinct
  output paths fails: \<open>in/a.jpg\<close> and \<open>in/a.PNG\<close> are both written to \<open>a.png\<close> of the
  same directory, with and without structure preservation.
\<close>

theorem distinct_inputs_one_output:
  "''in/a.jpg'' \<in> set (list_images example_env ''in'') \<and>
   ''in/a.PNG'' \<in> set (list_images example_env ''in'') \<and>
   ''in/a.jpg'' \<noteq> ''in/a.PNG'' \<and>
   output_path (getcwd example_env) ''in'' ''in/a.jpg'' ''out'' True = Inr ''out/./a.png'' \<and>
   output_path (getcwd example_env) ''in'' ''in/a.PNG'' ''out'' True = Inr ''out/./a.png'' \<and>
   output_path (getcwd example_env) ''in'' ''in/a.jpg'' ''out'' False = Inr ''out/a.png'' \<and>
   output_path (getcwd example_env) ''in'' ''in/a.PNG'' ''out'' False = Inr ''out/a.png''"
  by code_simp

text \<open>
  C5, amended. Two inputs whose output paths are computed get the same output path if and
  only if their stems (the base name without its extension) are equal and, when the
  structure is kept, their directories have the same path relative to the input root.
\<close>

theorem output_path_collision:
  assumes "output_path cwd root p1 out ks = Inr o1"
    and "output_path cwd root p2 out ks = Inr o2"
  shows "o1 = o2 \<longleftrightarrow>
     fst (splitext (basename p1)) = fst (splitext (basename p2)) \<and>
     (ks \<longrightarrow> relpath cwd (dirname p1) root = relpath cwd (dirname p2) root)"
proof (cases ks)
  case False
  from assms False have "o1 = out_path_of (join out []) p1" "o2 = out_path_of (join out []) p2"
    by (simp_all add: output_path_def target_dir_flat)
  then show ?thesis using False by (simp add: out_path_of_inj)
next
  case True
  from assms(1) True obtain r1 where r1: "relpath cwd (dirname p1) root = Inr r1"
    and o1: "o1 = out_path_of (join out r1) p1"
    by (auto simp: output_path_def target_dir_kept split: sum.splits)
  from assms(2) True obtain r2 where r2: "relpath cwd (dirname p2) root = Inr r2"
    and o2: "o2 = out_path_of (join out r2) p2"
    by (auto simp: output_path_def target_dir_kept split: sum.splits)
  have a1: "addsep (join out r1) = addsep out @ r1 @ [sep]"
    using relpath_shape [OF r1] by (intro addsep_join_rel) simp_all
  have a2: "addsep (join out r2) = addsep out @ r2 @ [sep]"
    using relpath_shape [OF r2] by (intro addsep_join_rel) simp_all
  show ?thesis unfolding o1 o2 out_path_of_inj a1 a2 r1 r2 using True by auto
qed

theorem output_path_collision_witness:
  "output_path ''/home/u'' ''in'' ''in/a.jpg'' ''out'' True = Inr ''out/./a.png'' \<and>
   output_path ''/home/u'' ''in'' ''in/sub/a.jpg'' ''out'' True = Inr ''out/sub/a.png'' \<and>
   (''out/./a.png'' = ''out/sub/a.png'' \<longleftrightarrow>
     fst (splitext (basename ''in/a.jpg'')) = fst (splitext (basename ''in/sub/a.jpg'')) \<and>
     relpath ''/home/u'' (dirname ''in/a.jpg'') ''in'' =
       relpath ''/home/u'' (dirname ''in/sub/a.jpg'') ''in'')"
proof -
  have h1: "output_path ''/home/u'' ''in'' ''in/a.jpg'' ''out'' True = Inr ''out/./a.png''"
    by code_simp
  have h2: "output_path ''/home/u'' ''in'' ''in/sub/a.jpg'' ''out'' True = Inr ''out/sub/a.png''"
    by code_simp
  from output_path_collision [OF h1 h2] h1 h2 show ?thesis by simp
qed

text \<open>
  C9. Take an input \<open>root/sub/fn\<close>: the input root, one or more directory names below
  it and a file name, the process running in an absolute directory. With structure
  preservation its output path is \<open>out/sub/<stem>.png\<close>, without it \<open>out/<stem>.png\<close>,
  where \<open><stem>\<close> is the file name without its extension, whatever the extension is.
  For every input at all, the file name of the output path is the stem of the input
  followed by \<open>.png\<close>.
\<close>

theorem output_path_mirrors:
  assumes cwd: "isabs cwd" and root: "root \<noteq> []"
    and subs: "subs \<noteq> []" "\<forall>s \<in> set subs. clean s"
    and fn: "component fn"
  shows
    "output_path cwd root (join (join root (str_join [sep] subs)) fn) out True =
       Inr (addsep out @ str_join [sep] subs @ [sep] @ fst (splitext fn) @ ''.png'') \<and>
     output_path cwd root (join (join root (str_join [sep] subs)) fn) out False =
       Inr (addsep out @ fst (splitext fn) @ ''.png'') \<and>
     (\<forall>name ext. fn = name @ CHR ''.'' # ext \<and> CHR ''.'' \<notin> set ext \<and>
        (\<exists>c \<in> set name. c \<noteq> CHR ''.'') \<longrightarrow> fst (splitext fn) = name) \<and>
     (\<forall>cwd' root' p out' ks opath. output_path cwd' root' p out' ks = Inr opath \<longrightarrow>
        basename opath = fst (splitext (basename p)) @ ''.png'')"
proof -
  let ?sub = "str_join [sep] subs"
  let ?p = "join (join root ?sub) fn"
  note shape = in_path_shape [OF root subs fn]
  have comps: "\<forall>s \<in> set subs. component s" using subs(2) by (simp add: clean_def)
  from str_join_ends [OF subs(1) comps]
  have sub: "?sub \<noteq> []" "hd ?sub \<noteq> sep" "last ?sub \<noteq> sep" by simp_all
  have rel: "relpath cwd (dirname ?p) root = Inr ?sub"
    unfolding shape(2) using cwd root subs by (rule relpath_subdir)
  have t1: "target_dir_of cwd root ?p out True = Inr (join out ?sub)"
    by (simp add: target_dir_kept rel)
  have a1: "addsep (join out ?sub) = addsep out @ ?sub @ [sep]"
    using sub by (rule addsep_join_rel)
  have 1: "output_path cwd root ?p out True =
       Inr (addsep out @ ?sub @ [sep] @ fst (splitext fn) @ ''.png'')"
    by (simp add: output_path_def t1 out_path_of_eq a1 shape(3))
  have a2: "addsep (join out []) = addsep out" by (simp add: join_def addsep_def suffix_sep_iff)
  have 2: "output_path cwd root ?p out False = Inr (addsep out @ fst (splitext fn) @ ''.png'')"
    by (simp add: output_path_def target_dir_flat out_path_of_eq a2 shape(3))
  have 3: "\<forall>name ext. fn = name @ CHR ''.'' # ext \<and> CHR ''.'' \<notin> set ext \<and>
        (\<exists>c \<in> set name. c \<noteq> CHR ''.'') \<longrightarrow> fst (splitext fn) = name"
  proof (intro allI impI)
    fix name ext
    assume a: "fn = name @ CHR ''.'' # ext \<and> CHR ''.'' \<notin> set ext \<and>
        (\<exists>c \<in> set name. c \<noteq> CHR ''.'')"
    with fn have "sep \<notin> set (name @ CHR ''.'' # ext)" by (simp add: component_def)
    with a have "splitext (name @ CHR ''.'' # ext) = (name, CHR ''.'' # ext)"
      by (intro splitext_ext) blast+
    with a show "fst (splitext fn) = name" by simp
  qed
  have 4: "\<forall>cwd' root' p out' ks opath. output_path cwd' root' p out' ks = Inr opath \<longrightarrow>
        basename opath = fst (splitext (basename p)) @ ''.png''"
    using output_path_basename by blast
  from 1 2 3 4 show ?thesis by blast
qed

theorem output_path_mirrors_witness:
  "isabs ''/home/u'' \<and> ''in'' \<noteq> [] \<and> [''sub''] \<noteq> [] \<and> clean ''sub'' \<and> component ''img.jpg'' \<and>
   output_path ''/home/u'' ''in'' ''in/sub/img.jpg'' ''out'' True = Inr ''out/sub/img.png'' \<and>
   output_path ''/home/u'' ''in'' ''in/sub/img.jpg'' ''out'' False = Inr ''out/img.png'' \<and>
   basename ''out/sub/img.png'' = ''img.png''"
proof -
  have h1: "isabs ''/home/u''" by code_simp
  have h2: "''in'' \<noteq> []" by simp
  have h3: "[''sub''] \<noteq> []" by simp
  have c: "clean ''sub''" by code_simp
  then have h4: "\<forall>s \<in> set [''sub'']. clean s" by simp
  have h5: "component ''img.jpg''" by code_simp
  have p: "join (join ''in'' (str_join [sep] [''sub''])) ''img.jpg'' = ''in/sub/img.jpg''"
    by code_simp
  have r1: "addsep ''out'' @ str_join [sep] [''sub''] @ [sep] @ fst (splitext ''img.jpg'') @ ''.png''
      = ''out/sub/img.png''" by code_simp
  have r2: "addsep ''out'' @ fst (splitext ''img.jpg'') @ ''.png'' = ''out/img.png''" by code_simp
  have st: "fst (splitext (basename ''in/sub/img.jpg'')) @ ''.png'' = ''img.png''" by code_simp
  note m = output_path_mirrors [OF h1 h2 h3 h4 h5, of "''out''", unfolded p r1 r2]
  have o1: "output_path ''/home/u'' ''in'' ''in/sub/img.jpg'' ''out'' True = Inr ''out/sub/img.png''"
    by (rule m [THEN conjunct1])
  have o2: "output_path ''/home/u'' ''in'' ''in/sub/img.jpg'' ''out'' False = Inr ''out/img.png''"
    by (rule m [THEN conjunct2, THEN conjunct1])
  have "basename ''out/sub/img.png'' = fst (splitext (basename ''in/sub/img.jpg'')) @ ''.png''"
    by (rule m [THEN conjunct2, THEN conjunct2, THEN conjunct2, rule_format, OF o1])
  then have b: "basename ''out/sub/img.png'' = ''img.png''" unfolding st .
  show ?thesis
    by (intro conjI) (fact h1 h2 h3 c h5 o1 o2 b)+
qed

end
